theory Spec2Isabelle
  imports Main "HOL-Library.Word"
begin

section \<open>Build configuration and error values\<close>

text \<open>
  The two source files \<^verbatim>\<open>datastore.c\<close> and \<^verbatim>\<open>gpuscan.c\<close> include
  \<^verbatim>\<open>pg_strom.h\<close>, which is not among them. What that header fixes (struct offsets,
  the alignment unit, the hash-slot count, the error codes) and what the build fixes
  (assertion checking, the storage page size) is collected in one record that every
  function of the model takes as its first argument.
\<close>

type_synonym byte = "8 word"

record strom_config =
  USE_ASSERT_CHECKING :: bool
  STROMALIGN_LEN :: nat
  BLCKSZ :: nat
  kds_colmeta_off :: "nat \<Rightarrow> nat"
  KDS_NSLOTS :: "nat \<Rightarrow> nat"
  tupitem_t_len_sz :: nat
  tupitem_t_self_off :: nat
  tupitem_htup_off :: nat
  hashitem_t_off :: nat
  StromError_Success :: int
  StromError_CpuReCheck :: int
  StromError_DataStoreNoSpace :: int
  StromKernel_CudaRuntime :: int

text \<open>
  \<^verbatim>\<open>elog(ERROR, ...)\<close> leaves the function with the message; a failed \<^verbatim>\<open>Assert\<close>
  traps when the build checks assertions and is no code at all otherwise; an access
  through a pointer that \<^verbatim>\<open>dmaBufferFree\<close> has released is an error of its own, and so
  is a \<^verbatim>\<open>memmove\<close> that reaches beyond the buffer of the chunk.
\<close>

datatype pg_error = ERROR string | AssertFailure | UseAfterFree | BufferOverrun

definition Assert :: "strom_config \<Rightarrow> bool \<Rightarrow> bool" where
  "Assert c cond \<longleftrightarrow> (USE_ASSERT_CHECKING c \<longrightarrow> cond)"

section \<open>Reference counting of the chunk store\<close>

text \<open>
  \<^verbatim>\<open>pgstrom_data_store\<close> is \<^verbatim>\<open>refcnt\<close> followed by the embedded
  \<^verbatim>\<open>kern_data_store\<close>. The DMA buffer heap maps a buffer address to the object living
  there; \<^verbatim>\<open>free_log\<close> lists the addresses handed to \<^verbatim>\<open>dmaBufferFree\<close>, oldest
  first, so that "freed exactly once" can be counted.

  Modelled from the spec: the declaration of \<^verbatim>\<open>refcnt\<close> is in the missing header. It is
  taken as a 32-bit signed integer, a \<^verbatim>\<open>cl_int\<close>: the field holds an integer of that
  range, and \<^verbatim>\<open>cl_int\<close> below is the value an increment or decrement leaves in such a
  field, which wraps around at the ends of the range.
\<close>

definition cl_int :: "int \<Rightarrow> int" where
  "cl_int x = (x + 2 ^ 31) mod 2 ^ 32 - 2 ^ 31"

record 'k pgstrom_data_store =
  refcnt :: int
  kds :: 'k

record 'k dma_heap =
  bufs :: "nat \<rightharpoonup> 'k pgstrom_data_store"
  next_buf :: nat
  free_log :: "nat list"

text \<open>Modelled from the spec: the DMA buffer allocator (\<^verbatim>\<open>dmaBufferAlloc\<close>,
  \<^verbatim>\<open>dmaBufferFree\<close>) is defined in another file of the repository; allocation hands out
  a buffer that is not in use, release destroys the underlying buffer.\<close>

definition dmaBufferAlloc :: "'k dma_heap \<Rightarrow> 'k pgstrom_data_store \<Rightarrow> 'k dma_heap \<times> nat" where
  "dmaBufferAlloc h obj =
     (h\<lparr>bufs := (bufs h)(next_buf h \<mapsto> obj), next_buf := Suc (next_buf h)\<rparr>, next_buf h)"

definition dmaBufferFree :: "'k dma_heap \<Rightarrow> nat \<Rightarrow> 'k dma_heap" where
  "dmaBufferFree h p = h\<lparr>bufs := (bufs h)(p := None), free_log := free_log h @ [p]\<rparr>"

definition PDS_retain :: "strom_config \<Rightarrow> 'k dma_heap \<Rightarrow> nat \<Rightarrow> pg_error + ('k dma_heap \<times> nat)" where
  "PDS_retain c h pds =
     (case bufs h pds of
        None \<Rightarrow> Inl UseAfterFree
      | Some obj \<Rightarrow>
          if \<not> Assert c (refcnt obj > 0) then Inl AssertFailure
          else Inr (h\<lparr>bufs := (bufs h)(pds \<mapsto> obj\<lparr>refcnt := cl_int (refcnt obj + 1)\<rparr>)\<rparr>, pds))"

definition PDS_release :: "strom_config \<Rightarrow> 'k dma_heap \<Rightarrow> nat \<Rightarrow> pg_error + 'k dma_heap" where
  "PDS_release c h pds =
     (case bufs h pds of
        None \<Rightarrow> Inl UseAfterFree
      | Some obj \<Rightarrow>
          if \<not> Assert c (refcnt obj > 0) then Inl AssertFailure
          else
            let h1 = h\<lparr>bufs := (bufs h)(pds \<mapsto> obj\<lparr>refcnt := cl_int (refcnt obj - 1)\<rparr>)\<rparr>
            in if cl_int (refcnt obj - 1) = 0 then Inr (dmaBufferFree h1 pds) else Inr h1)"

text \<open>A caller's sequence of retain and release calls on one reference; the first
  error ends it.\<close>

datatype ref_op = Retain | Release

fun run_ref_ops :: "strom_config \<Rightarrow> 'k dma_heap \<Rightarrow> nat \<Rightarrow> ref_op list \<Rightarrow> pg_error + 'k dma_heap" where
  "run_ref_ops c h pds [] = Inr h"
| "run_ref_ops c h pds (Retain # ops) =
     (case PDS_retain c h pds of Inl e \<Rightarrow> Inl e | Inr (h', p') \<Rightarrow> run_ref_ops c h' p' ops)"
| "run_ref_ops c h pds (Release # ops) =
     (case PDS_release c h pds of Inl e \<Rightarrow> Inl e | Inr h' \<Rightarrow> run_ref_ops c h' pds ops)"

section \<open>The completion callback of a GpuScan task\<close>

text \<open>
  \<^verbatim>\<open>pgstrom_respond_gpuscan\<close> runs when the CUDA stream of a task has drained. The
  task queues of the \<^verbatim>\<open>GpuTaskState\<close> are lists of task addresses, head first;
  \<^verbatim>\<open>task_chain_linked\<close> says whether \<^verbatim>\<open>task.chain.prev\<close> and \<^verbatim>\<open>task.chain.next\<close>
  are both set, that is, whether the task is on the running list already. The spin lock
  and the latch are not modelled. \<^verbatim>\<open>CUresult\<close> values are those of the CUDA driver API.
\<close>

record kern_errorbuf =
  errcode :: int
  kernel :: int
  lineno :: int

record pgstrom_gpuscan =
  task_kerror :: kern_errorbuf
  task_cpu_fallback :: bool
  task_chain_linked :: bool
  kern_kerror :: kern_errorbuf

record GpuTaskState =
  running_tasks :: "nat list"
  num_running_tasks :: int
  completed_tasks :: "nat list"
  num_completed_tasks :: int

definition CUDA_SUCCESS :: int where
  "CUDA_SUCCESS = 0"

definition CUDA_ERROR_INVALID_CONTEXT :: int where
  "CUDA_ERROR_INVALID_CONTEXT = 201"

definition dlist_delete :: "nat \<Rightarrow> nat list \<Rightarrow> nat list" where
  "dlist_delete node l = remove1 node l"

definition dlist_push_tail :: "nat list \<Rightarrow> nat \<Rightarrow> nat list" where
  "dlist_push_tail l node = l @ [node]"

definition dlist_push_head :: "nat list \<Rightarrow> nat \<Rightarrow> nat list" where
  "dlist_push_head l node = node # l"

text \<open>Arguments beyond the source's: \<^verbatim>\<open>fallback_enabled\<close> is the global
  \<^verbatim>\<open>pgstrom_cpu_fallback_enabled\<close>, \<^verbatim>\<open>in_transaction\<close> is what
  \<^verbatim>\<open>IsTransactionState()\<close> returns, \<^verbatim>\<open>private\<close> is the task's address and
  \<^verbatim>\<open>gpuscan\<close> the object there.\<close>

definition pgstrom_respond_gpuscan ::
  "strom_config \<Rightarrow> bool \<Rightarrow> bool \<Rightarrow> int \<Rightarrow> nat \<Rightarrow> pgstrom_gpuscan \<Rightarrow> GpuTaskState
     \<Rightarrow> pgstrom_gpuscan \<times> GpuTaskState" where
  "pgstrom_respond_gpuscan c fallback_enabled in_transaction status private gpuscan gts =
     (if status = CUDA_ERROR_INVALID_CONTEXT \<or> \<not> in_transaction then (gpuscan, gts)
      else
        let g1 =
              (if status = CUDA_SUCCESS then
                 let g = gpuscan\<lparr>task_kerror := kern_kerror gpuscan\<rparr>
                 in if fallback_enabled \<and>
                       (errcode (task_kerror g) = StromError_CpuReCheck c \<or>
                        errcode (task_kerror g) = StromError_DataStoreNoSpace c)
                    then g\<lparr>task_kerror := (task_kerror g)\<lparr>errcode := StromError_Success c\<rparr>,
                           task_cpu_fallback := True\<rparr>
                    else g
               else gpuscan\<lparr>task_kerror := (task_kerror gpuscan)
                       \<lparr>errcode := status, kernel := StromKernel_CudaRuntime c, lineno := 0\<rparr>\<rparr>);
            gts1 =
              (if task_chain_linked g1
               then gts\<lparr>running_tasks := dlist_delete private (running_tasks gts),
                        num_running_tasks := num_running_tasks gts - 1\<rparr>
               else gts);
            gts2 =
              (if errcode (task_kerror g1) = StromError_Success c
               then gts1\<lparr>completed_tasks := dlist_push_tail (completed_tasks gts1) private\<rparr>
               else gts1\<lparr>completed_tasks := dlist_push_head (completed_tasks gts1) private\<rparr>)
        in (g1\<lparr>task_chain_linked := True\<rparr>,
            gts2\<lparr>num_completed_tasks := num_completed_tasks gts2 + 1\<rparr>))"

section \<open>Alignment and chunk layout\<close>

text \<open>
  PostgreSQL's \<^verbatim>\<open>TYPEALIGN(a, len)\<close> is \<^verbatim>\<open>(len + (a - 1)) & ~(a - 1)\<close>; for the
  power-of-two alignments it is used with, that is rounding up to a multiple of \<open>a\<close>,
  which is what is written here. \<^verbatim>\<open>MAXALIGN\<close> and \<^verbatim>\<open>LONGALIGN\<close> are 8 on the
  64-bit platforms the extension supports, where \<^verbatim>\<open>sizeof(Datum)\<close> is 8 and
  \<^verbatim>\<open>sizeof(cl_uint)\<close> is 4.
\<close>

definition TYPEALIGN :: "nat \<Rightarrow> nat \<Rightarrow> nat" where
  "TYPEALIGN a len = ((len + (a - 1)) div a) * a"

definition TYPEALIGN_DOWN :: "nat \<Rightarrow> nat \<Rightarrow> nat" where
  "TYPEALIGN_DOWN a len = (len div a) * a"

definition MAXALIGN :: "nat \<Rightarrow> nat" where
  "MAXALIGN len = TYPEALIGN 8 len"

definition LONGALIGN :: "nat \<Rightarrow> nat" where
  "LONGALIGN len = TYPEALIGN 8 len"

definition sizeof_cl_uint :: nat where
  "sizeof_cl_uint = 4"

definition sizeof_Datum :: nat where
  "sizeof_Datum = 8"

definition INT_MAX :: nat where
  "INT_MAX = 2147483647"

text \<open>Subtraction of two \<^verbatim>\<open>size_t\<close> values and of two \<^verbatim>\<open>cl_uint\<close> values, which
  wrap around below zero.\<close>

definition size_t_sub :: "nat \<Rightarrow> nat \<Rightarrow> nat" where
  "size_t_sub a b = (a + 2 ^ 64 - b mod 2 ^ 64) mod 2 ^ 64"

definition cl_uint_sub :: "nat \<Rightarrow> nat \<Rightarrow> nat" where
  "cl_uint_sub a b = (a + 2 ^ 32 - b mod 2 ^ 32) mod 2 ^ 32"

text \<open>Modelled from the spec: \<^verbatim>\<open>STROMALIGN\<close> and \<^verbatim>\<open>STROMALIGN_DOWN\<close> of the missing
  header, the "alignment boundary" of the chunk: rounding up and down to the unit
  \<^verbatim>\<open>STROMALIGN_LEN\<close>.\<close>

definition STROMALIGN :: "strom_config \<Rightarrow> nat \<Rightarrow> nat" where
  "STROMALIGN c len = TYPEALIGN (STROMALIGN_LEN c) len"

definition STROMALIGN_DOWN :: "strom_config \<Rightarrow> nat \<Rightarrow> nat" where
  "STROMALIGN_DOWN c len = TYPEALIGN_DOWN (STROMALIGN_LEN c) len"

text \<open>Modelled from the spec: the length macros of the missing header. A chunk is the
  header with one metadata entry per column, then the index array with one
  \<^verbatim>\<open>cl_uint\<close> offset per record, for the Hash format then the bucket table with
  \<^verbatim>\<open>__KDS_NSLOTS(nitems)\<close> entries, and the payload at the far end; \<open>length_for\<close> of
  the spec is \<^verbatim>\<open>KDS_CALCULATE_ROW_LENGTH\<close> and \<^verbatim>\<open>KDS_CALCULATE_HASH_LENGTH\<close>.
  \<^verbatim>\<open>PDS_create_slot\<close> of \<^verbatim>\<open>datastore.c\<close> spells the head length out as
  \<^verbatim>\<open>STROMALIGN(offsetof(kern_data_store, colmeta[natts]))\<close>.\<close>

definition KDS_CALCULATE_HEAD_LENGTH :: "strom_config \<Rightarrow> nat \<Rightarrow> nat" where
  "KDS_CALCULATE_HEAD_LENGTH c n_cols = STROMALIGN c (kds_colmeta_off c n_cols)"

definition KDS_CALCULATE_ROW_FRONTLEN :: "strom_config \<Rightarrow> nat \<Rightarrow> nat \<Rightarrow> nat" where
  "KDS_CALCULATE_ROW_FRONTLEN c n_cols n_items =
     KDS_CALCULATE_HEAD_LENGTH c n_cols + STROMALIGN c (sizeof_cl_uint * n_items)"

definition KDS_CALCULATE_HASH_FRONTLEN :: "strom_config \<Rightarrow> nat \<Rightarrow> nat \<Rightarrow> nat" where
  "KDS_CALCULATE_HASH_FRONTLEN c n_cols n_items =
     KDS_CALCULATE_HEAD_LENGTH c n_cols + STROMALIGN c (sizeof_cl_uint * n_items)
       + STROMALIGN c (sizeof_cl_uint * KDS_NSLOTS c n_items)"

definition KDS_CALCULATE_ROW_LENGTH :: "strom_config \<Rightarrow> nat \<Rightarrow> nat \<Rightarrow> nat \<Rightarrow> nat" where
  "KDS_CALCULATE_ROW_LENGTH c n_cols n_items data_len =
     KDS_CALCULATE_ROW_FRONTLEN c n_cols n_items + STROMALIGN c data_len"

definition KDS_CALCULATE_HASH_LENGTH :: "strom_config \<Rightarrow> nat \<Rightarrow> nat \<Rightarrow> nat \<Rightarrow> nat" where
  "KDS_CALCULATE_HASH_LENGTH c n_cols n_items data_len =
     KDS_CALCULATE_HASH_FRONTLEN c n_cols n_items + STROMALIGN c data_len"

section \<open>The chunk and its memory\<close>

text \<open>
  A \<^verbatim>\<open>kern_data_store\<close> is the header fields that the functions below read and
  write, and \<^verbatim>\<open>mem\<close>, the bytes of the buffer addressed by their offset from the
  start of the chunk. Index entries, bucket heads and records live in \<^verbatim>\<open>mem\<close>, so
  that a write through one pointer is seen through every other. The column metadata
  and the header fields that no function here reads are left out. All fields are
  natural numbers; where the source narrows a value to \<^verbatim>\<open>cl_uint\<close> on a store, the
  store below does.
\<close>

datatype kds_format = KDS_FORMAT_ROW | KDS_FORMAT_SLOT | KDS_FORMAT_HASH | KDS_FORMAT_BLOCK

record kern_data_store =
  kds_length :: nat
  usage :: nat
  ncols :: nat
  nitems :: nat
  nrooms :: nat
  format :: kds_format
  nslots :: nat
  nrows_per_block :: nat
  mem :: "nat \<Rightarrow> byte"

text \<open>\<^verbatim>\<open>memcpy\<close> into the chunk, a read of \<open>n\<close> bytes, and unsigned integers of
  \<open>n\<close> bytes in the byte order of the host (little endian). Storing a number in \<open>n\<close>
  bytes drops what does not fit, as the C assignment to a narrower unsigned type
  does.\<close>

definition store_bytes :: "(nat \<Rightarrow> byte) \<Rightarrow> nat \<Rightarrow> byte list \<Rightarrow> (nat \<Rightarrow> byte)" where
  "store_bytes m a bs = (\<lambda>x. if a \<le> x \<and> x < a + length bs then bs ! (x - a) else m x)"

definition load_bytes :: "(nat \<Rightarrow> byte) \<Rightarrow> nat \<Rightarrow> nat \<Rightarrow> byte list" where
  "load_bytes m a n = map m [a..<a + n]"

definition le_bytes :: "nat \<Rightarrow> nat \<Rightarrow> byte list" where
  "le_bytes n v = map (\<lambda>i. of_nat (v div 256 ^ i)) [0..<n]"

definition le_nat :: "byte list \<Rightarrow> nat" where
  "le_nat bs = foldr (\<lambda>b acc. unat b + 256 * acc) bs 0"

definition store_uint :: "(nat \<Rightarrow> byte) \<Rightarrow> nat \<Rightarrow> nat \<Rightarrow> nat \<Rightarrow> (nat \<Rightarrow> byte)" where
  "store_uint m a n v = store_bytes m a (le_bytes n v)"

definition load_uint :: "(nat \<Rightarrow> byte) \<Rightarrow> nat \<Rightarrow> nat \<Rightarrow> nat" where
  "load_uint m a n = le_nat (load_bytes m a n)"


definition KERN_DATA_STORE_BODY :: "strom_config \<Rightarrow> kern_data_store \<Rightarrow> nat" where
  "KERN_DATA_STORE_BODY c k = KDS_CALCULATE_HEAD_LENGTH c (ncols k)"

definition KERN_DATA_STORE_ROWINDEX :: "strom_config \<Rightarrow> kern_data_store \<Rightarrow> nat" where
  "KERN_DATA_STORE_ROWINDEX c k = KERN_DATA_STORE_BODY c k"

definition KERN_DATA_STORE_HASHSLOT :: "strom_config \<Rightarrow> kern_data_store \<Rightarrow> nat" where
  "KERN_DATA_STORE_HASHSLOT c k =
     KERN_DATA_STORE_BODY c k + STROMALIGN c (sizeof_cl_uint * nitems k)"

definition KERN_DATA_STORE_TUPITEM :: "strom_config \<Rightarrow> kern_data_store \<Rightarrow> nat \<Rightarrow> nat" where
  "KERN_DATA_STORE_TUPITEM c k i =
     load_uint (mem k) (KERN_DATA_STORE_ROWINDEX c k + sizeof_cl_uint * i) sizeof_cl_uint"

definition KERN_DATA_STORE_HASHITEM :: "strom_config \<Rightarrow> kern_data_store \<Rightarrow> nat \<Rightarrow> nat" where
  "KERN_DATA_STORE_HASHITEM c k i =
     load_uint (mem k) (KERN_DATA_STORE_ROWINDEX c k + sizeof_cl_uint * i) sizeof_cl_uint
       - hashitem_t_off c"

definition KERN_DATA_STORE_VALUES :: "strom_config \<Rightarrow> kern_data_store \<Rightarrow> nat \<Rightarrow> nat" where
  "KERN_DATA_STORE_VALUES c k i =
     KERN_DATA_STORE_BODY c k + LONGALIGN ((sizeof_Datum + 1) * ncols k) * i"

definition KERN_DATA_STORE_ISNULL :: "strom_config \<Rightarrow> kern_data_store \<Rightarrow> nat \<Rightarrow> nat" where
  "KERN_DATA_STORE_ISNULL c k i = KERN_DATA_STORE_VALUES c k i + sizeof_Datum * ncols k"

definition KERN_DATA_STORE_SLOT_LENGTH :: "strom_config \<Rightarrow> kern_data_store \<Rightarrow> nat \<Rightarrow> nat" where
  "KERN_DATA_STORE_SLOT_LENGTH c k n_items =
     KDS_CALCULATE_HEAD_LENGTH c (ncols k)
       + STROMALIGN c (LONGALIGN ((sizeof_Datum + 1) * ncols k) * n_items)"

text \<open>Modelled from the spec: the fields of \<^verbatim>\<open>kern_hashitem\<close> in front of the record,
  "record blob prefixed with hash value and bucket chain pointer"; the source also
  keeps the record's number there. Each is a \<^verbatim>\<open>cl_uint\<close>.\<close>

definition hashitem_hash_off :: nat where
  "hashitem_hash_off = 0"

definition hashitem_next_off :: nat where
  "hashitem_next_off = 4"

definition hashitem_rowid_off :: nat where
  "hashitem_rowid_off = 8"

section \<open>Tuples and slots of the executor\<close>

text \<open>
  A \<^verbatim>\<open>HeapTupleData\<close> is its length, its item pointer (six bytes) and the bytes
  \<^verbatim>\<open>t_data\<close> points to. Where the source hands out a pointer into the chunk, the
  model hands out the \<^verbatim>\<open>t_len\<close> bytes found there. A \<^verbatim>\<open>TupleTableSlot\<close> is the
  number of attributes of its descriptor and what it holds: nothing, a tuple, or the
  arrays \<^verbatim>\<open>tts_values\<close> and \<^verbatim>\<open>tts_isnull\<close> as bytes.
\<close>

record HeapTupleData =
  t_len :: nat
  t_self :: "byte list"
  t_data :: "byte list"

datatype tts_content = TTS_EMPTY | TTS_TUPLE HeapTupleData | TTS_VIRTUAL "byte list" "byte list"

record TupleTableSlot =
  tts_natts :: nat
  tts_content :: tts_content

definition ItemPointerSet :: "nat \<Rightarrow> nat \<Rightarrow> byte list" where
  "ItemPointerSet blkno offnum =
     le_bytes 2 (blkno div 65536) @ le_bytes 2 (blkno mod 65536) @ le_bytes 2 offnum"

section \<open>Creating a chunk store\<close>

text \<open>
  \<^verbatim>\<open>init_kernel_data_store\<close> sets the header fields; the loop over the columns of
  the tuple descriptor fills the column metadata, which is not part of the model, so
  the descriptor is its number of attributes \<^verbatim>\<open>natts\<close>. \<^verbatim>\<open>dmaBufferAlloc\<close>
  returns memory with whatever it held before: \<^verbatim>\<open>junk\<close>.
\<close>

definition init_kernel_data_store ::
  "kern_data_store \<Rightarrow> nat \<Rightarrow> nat \<Rightarrow> kds_format \<Rightarrow> nat \<Rightarrow> kern_data_store" where
  "init_kernel_data_store k natts len fmt n_rooms =
     k\<lparr>kds_length := len, usage := 0, ncols := natts, nitems := 0, nrooms := n_rooms,
       format := fmt, nslots := 0, nrows_per_block := 0\<rparr>"

definition PDS_create_row ::
  "strom_config \<Rightarrow> kern_data_store dma_heap \<Rightarrow> nat \<Rightarrow> nat \<Rightarrow> kern_data_store pgstrom_data_store
     \<Rightarrow> kern_data_store dma_heap \<times> nat" where
  "PDS_create_row c h natts len junk =
     (let kds_len = STROMALIGN_DOWN c len;
          (h1, pds) = dmaBufferAlloc h junk;
          obj = junk\<lparr>refcnt := 1,
                     kds := init_kernel_data_store (kds junk) natts kds_len KDS_FORMAT_ROW INT_MAX\<rparr>
      in (h1\<lparr>bufs := (bufs h1)(pds \<mapsto> obj)\<rparr>, pds))"

definition PDS_create_hash ::
  "strom_config \<Rightarrow> kern_data_store dma_heap \<Rightarrow> nat \<Rightarrow> nat \<Rightarrow> kern_data_store pgstrom_data_store
     \<Rightarrow> pg_error + (kern_data_store dma_heap \<times> nat)" where
  "PDS_create_hash c h natts len junk =
     (let kds_len = STROMALIGN_DOWN c len
      in if KDS_CALCULATE_HEAD_LENGTH c natts > kds_len
         then Inl (ERROR ''Required length for KDS-Hash is too short'')
         else
           let (h1, pds) = dmaBufferAlloc h junk;
               obj = junk\<lparr>refcnt := 1,
                          kds := init_kernel_data_store (kds junk) natts kds_len KDS_FORMAT_HASH INT_MAX\<rparr>
           in Inr (h1\<lparr>bufs := (bufs h1)(pds \<mapsto> obj)\<rparr>, pds))"

definition PDS_create_slot ::
  "strom_config \<Rightarrow> kern_data_store dma_heap \<Rightarrow> nat \<Rightarrow> nat \<Rightarrow> nat \<Rightarrow> kern_data_store pgstrom_data_store
     \<Rightarrow> kern_data_store dma_heap \<times> nat" where
  "PDS_create_slot c h natts n_rooms extra_length junk =
     (let kds_len = STROMALIGN c (kds_colmeta_off c natts)
                        + STROMALIGN c (LONGALIGN ((sizeof_Datum + 1) * natts) * n_rooms)
                        + STROMALIGN c extra_length;
          (h1, pds) = dmaBufferAlloc h junk;
          obj = junk\<lparr>refcnt := 1,
                     kds := init_kernel_data_store (kds junk) natts kds_len KDS_FORMAT_SLOT n_rooms\<rparr>
      in (h1\<lparr>bufs := (bufs h1)(pds \<mapsto> obj)\<rparr>, pds))"

section \<open>Appending and fetching records\<close>

text \<open>
  The insert functions take, in place of the slot, what they use of it: \<^verbatim>\<open>natts\<close> is
  \<^verbatim>\<open>slot->tts_tupleDescriptor->natts\<close> and \<^verbatim>\<open>tuple\<close> is what the executor's
  \<^verbatim>\<open>ExecFetchSlotTuple(slot)\<close> returns. They return the boolean and the chunk.
\<close>

definition PDS_insert_tuple ::
  "strom_config \<Rightarrow> kern_data_store \<Rightarrow> nat \<Rightarrow> HeapTupleData \<Rightarrow> pg_error + (bool \<times> kern_data_store)" where
  "PDS_insert_tuple c k natts tuple =
     (if nitems k \<ge> nrooms k then Inr (False, k)
      else if \<not> Assert c (ncols k = natts) then Inl AssertFailure
      else if format k \<noteq> KDS_FORMAT_ROW
        then Inl (ERROR ''Bug? unexpected data-store format: %d'')
      else
        let tup_index = KERN_DATA_STORE_ROWINDEX c k;
            required = LONGALIGN (tupitem_htup_off c + t_len tuple)
        in if KDS_CALCULATE_ROW_LENGTH c (ncols k) (nitems k + 1) (required + usage k) > kds_length k
           then Inr (False, k)
           else
             let usage1 = usage k + required;
                 tup_item = kds_length k - usage1;
                 m1 = store_uint (mem k) tup_item (tupitem_t_len_sz c) (t_len tuple);
                 m2 = store_bytes m1 (tup_item + tupitem_t_self_off c) (t_self tuple);
                 m3 = store_bytes m2 (tup_item + tupitem_htup_off c) (take (t_len tuple) (t_data tuple));
                 m4 = store_uint m3 (tup_index + sizeof_cl_uint * nitems k) sizeof_cl_uint tup_item
             in Inr (True, k\<lparr>usage := usage1, nitems := nitems k + 1, mem := m4\<rparr>))"

definition PDS_insert_hashitem ::
  "strom_config \<Rightarrow> kern_data_store \<Rightarrow> nat \<Rightarrow> HeapTupleData \<Rightarrow> nat
     \<Rightarrow> pg_error + (bool \<times> kern_data_store)" where
  "PDS_insert_hashitem c k natts tuple hash_value =
     (let row_index = KERN_DATA_STORE_ROWINDEX c k
      in if nitems k \<ge> nrooms k then Inr (False, k)
      else if \<not> Assert c (ncols k = natts) then Inl AssertFailure
      else if format k \<noteq> KDS_FORMAT_HASH
        then Inl (ERROR ''Bug? unexpected data-store format: %d'')
      else
        let required = MAXALIGN (hashitem_t_off c + tupitem_htup_off c + t_len tuple)
        in if \<not> Assert c (usage k = MAXALIGN (usage k)) then Inl AssertFailure
           else if KDS_CALCULATE_HASH_LENGTH c (ncols k) (nitems k + 1) (required + usage k) > kds_length k
           then Inr (False, k)
           else
             let khitem = kds_length k - (usage k + required);
                 usage1 = usage k + required;
                 m1 = store_uint (mem k) (khitem + hashitem_hash_off) sizeof_cl_uint hash_value;
                 m2 = store_uint m1 (khitem + hashitem_next_off) sizeof_cl_uint 0x7f7f7f7f;
                 rowid = nitems k;
                 m3 = store_uint m2 (khitem + hashitem_rowid_off) sizeof_cl_uint rowid;
                 t = khitem + hashitem_t_off c;
                 m4 = store_uint m3 t (tupitem_t_len_sz c) (t_len tuple);
                 m5 = store_bytes m4 (t + tupitem_t_self_off c) (t_self tuple);
                 m6 = store_bytes m5 (t + tupitem_htup_off c) (take (t_len tuple) (t_data tuple));
                 m7 = store_uint m6 (row_index + sizeof_cl_uint * rowid) sizeof_cl_uint t
             in Inr (True, k\<lparr>usage := usage1, nitems := nitems k + 1, mem := m7\<rparr>))"

text \<open>\<^verbatim>\<open>kern_fetch_data_store\<close> returns the boolean, the slot and the tuple buffer
  of the caller as it leaves them.\<close>

definition kern_fetch_data_store ::
  "strom_config \<Rightarrow> TupleTableSlot \<Rightarrow> kern_data_store \<Rightarrow> nat \<Rightarrow> HeapTupleData
     \<Rightarrow> pg_error + (bool \<times> TupleTableSlot \<times> HeapTupleData)" where
  "kern_fetch_data_store c slot k row_index tuple =
     (if row_index \<ge> nitems k then Inr (False, slot, tuple)
      else if format k = KDS_FORMAT_ROW then
        let tup_item = KERN_DATA_STORE_TUPITEM c k row_index;
            len = load_uint (mem k) tup_item (tupitem_t_len_sz c);
            tuple1 = tuple\<lparr>t_len := len,
                           t_self := load_bytes (mem k) (tup_item + tupitem_t_self_off c) 6,
                           t_data := load_bytes (mem k) (tup_item + tupitem_htup_off c) len\<rparr>
        in Inr (True, slot\<lparr>tts_content := TTS_TUPLE tuple1\<rparr>, tuple1)
      else if format k = KDS_FORMAT_SLOT then
        let tts_values = KERN_DATA_STORE_VALUES c k row_index;
            tts_isnull = KERN_DATA_STORE_ISNULL c k row_index;
            natts = tts_natts slot
        in Inr (True,
                slot\<lparr>tts_content := TTS_VIRTUAL (load_bytes (mem k) tts_values (sizeof_Datum * natts))
                                                  (load_bytes (mem k) tts_isnull natts)\<rparr>,
                tuple)
      else Inl (ERROR ''Bug? unexpected data-store format: %d''))"

definition pgstrom_fetch_data_store ::
  "strom_config \<Rightarrow> TupleTableSlot \<Rightarrow> kern_data_store pgstrom_data_store \<Rightarrow> nat \<Rightarrow> HeapTupleData
     \<Rightarrow> pg_error + (bool \<times> TupleTableSlot \<times> HeapTupleData)" where
  "pgstrom_fetch_data_store c slot pds row_index tuple =
     kern_fetch_data_store c slot (kds pds) row_index tuple"

section \<open>Growing and shrinking a chunk\<close>


text \<open>The buffer of a chunk ends where the chunk ends: \<^verbatim>\<open>PDS_create_row\<close> and its
  siblings ask \<^verbatim>\<open>dmaBufferAlloc\<close> for \<^verbatim>\<open>offsetof(pgstrom_data_store, kds)\<close> plus the
  length of the chunk. A \<^verbatim>\<open>memmove\<close> of \<open>n\<close> bytes stays inside a chunk of \<open>len\<close> bytes
  when neither its source nor its destination reaches beyond them; one that does not has
  no defined behaviour, and \<^verbatim>\<open>PDS_shrink_size\<close> below ends with \<^verbatim>\<open>BufferOverrun\<close>
  there.\<close>

definition memmove_in_bounds :: "nat \<Rightarrow> nat \<Rightarrow> nat \<Rightarrow> nat \<Rightarrow> bool" where
  "memmove_in_bounds len dst src n \<longleftrightarrow> n = 0 \<or> (dst + n \<le> len \<and> src + n \<le> len)"

text \<open>The loop of \<^verbatim>\<open>PDS_shrink_size\<close> over the records \<open>i\<close>: the index entry goes
  down by \<^verbatim>\<open>shift\<close> and, when there is a bucket table, the record is pushed on the
  front of the chain of its bucket.\<close>

fun shrink_adjust ::
  "strom_config \<Rightarrow> kern_data_store \<Rightarrow> nat \<Rightarrow> nat list \<Rightarrow> (nat \<Rightarrow> byte) \<Rightarrow> pg_error + (nat \<Rightarrow> byte)" where
  "shrink_adjust c k shift [] m = Inr m"
| "shrink_adjust c k shift (i # rest) m =
     (let row_index = KERN_DATA_STORE_ROWINDEX c k;
          hash_slot = KERN_DATA_STORE_HASHSLOT c k;
          n_slots = nslots k;
          m1 = store_uint m (row_index + sizeof_cl_uint * i) sizeof_cl_uint
                 (cl_uint_sub (load_uint m (row_index + sizeof_cl_uint * i) sizeof_cl_uint) shift)
      in if n_slots > 0 then
           let khitem = KERN_DATA_STORE_HASHITEM c (k\<lparr>mem := m1\<rparr>) i
           in if \<not> Assert c (load_uint m1 (khitem + hashitem_rowid_off) sizeof_cl_uint = i)
              then Inl AssertFailure
              else
                let khindex = load_uint m1 (khitem + hashitem_hash_off) sizeof_cl_uint mod n_slots;
                    m2 = store_uint m1 (khitem + hashitem_next_off) sizeof_cl_uint
                           (load_uint m1 (hash_slot + sizeof_cl_uint * khindex) sizeof_cl_uint);
                    m3 = store_uint m2 (hash_slot + sizeof_cl_uint * khindex) sizeof_cl_uint khitem
                in shrink_adjust c k shift rest m3
         else shrink_adjust c k shift rest m1)"

definition PDS_shrink_size :: "strom_config \<Rightarrow> kern_data_store \<Rightarrow> pg_error + kern_data_store" where
  "PDS_shrink_size c k =
     (if format k = KDS_FORMAT_ROW \<or> format k = KDS_FORMAT_HASH then
        let hash_slot = KERN_DATA_STORE_HASHSLOT c k;
            n_slots = nslots k;
            shift0 = size_t_sub (kds_length k)
                       (if format k = KDS_FORMAT_HASH
                        then KDS_CALCULATE_HASH_LENGTH c (ncols k) (nitems k) (usage k)
                        else KDS_CALCULATE_ROW_LENGTH c (ncols k) (nitems k) (usage k));
            shift = STROMALIGN_DOWN c shift0
        in if shift < BLCKSZ c \<or> shift < sizeof_Datum * nitems k then Inr k
           else
             let baseptr = (if format k = KDS_FORMAT_HASH
                            then KDS_CALCULATE_HASH_FRONTLEN c (ncols k) (nitems k)
                            else KDS_CALCULATE_ROW_FRONTLEN c (ncols k) (nitems k))
             in if \<not> memmove_in_bounds (kds_length k) baseptr (baseptr + shift)
                        (size_t_sub (kds_length k) shift)
                then Inl BufferOverrun
                else
                  let m1 = store_bytes (mem k) baseptr
                             (load_bytes (mem k) (baseptr + shift) (size_t_sub (kds_length k) shift))
                  in if n_slots > 0 \<and> \<not> Assert c (format k = KDS_FORMAT_HASH) then Inl AssertFailure
                     else
                       let m2 = (if n_slots > 0
                                 then store_bytes m1 hash_slot (replicate (sizeof_cl_uint * n_slots) 0)
                                 else m1)
                       in (case shrink_adjust c k shift [0..<nitems k] m2 of
                             Inl e \<Rightarrow> Inl e
                           | Inr m3 \<Rightarrow>
                               let new_length = size_t_sub (kds_length k) shift
                               in if \<not> Assert c (new_length \<le> kds_length k) then Inl AssertFailure
                                  else Inr (k\<lparr>mem := m3, kds_length := new_length\<rparr>))
      else if format k = KDS_FORMAT_SLOT then
        let new_length = KERN_DATA_STORE_SLOT_LENGTH c k (nitems k)
        in if usage k > 0 then Inl (ERROR ''cannot shirink KDS_SLOT with extra region'')
           else if \<not> Assert c (new_length \<le> kds_length k) then Inl AssertFailure
           else Inr (k\<lparr>kds_length := new_length\<rparr>)
      else Inl (ERROR ''Bug? unexpected PDS to be shrinked''))"

section \<open>Absorbing a storage page\<close>

text \<open>
  The page \<^verbatim>\<open>PDS_insert_block\<close> reads, after \<^verbatim>\<open>ReadBufferExtended\<close> and
  \<^verbatim>\<open>heap_page_prune_opt\<close> and under the share lock, is its all-visible flag and its
  line pointers in order. A line pointer is whether it is normal, the length of its
  item, the bytes of the item, and what \<^verbatim>\<open>HeapTupleSatisfiesVisibility\<close> answers for
  it under the snapshot. \<^verbatim>\<open>CheckForSerializableConflictOut\<close> of the executor is taken
  to return. The loop over the line pointers is a recursion over their list that
  carries the chunk and \<^verbatim>\<open>ntup\<close>.
\<close>

record page_item =
  lp_normal :: bool
  lp_len :: nat
  item_data :: "byte list"
  item_visible :: bool

record heap_page =
  pd_all_visible :: bool
  page_items :: "page_item list"

definition MaxHeapTuplesPerPage :: "strom_config \<Rightarrow> nat" where
  "MaxHeapTuplesPerPage c = (BLCKSZ c - 24) div (MAXALIGN 23 + 4)"

definition FirstOffsetNumber :: nat where
  "FirstOffsetNumber = 1"

fun insert_block_loop ::
  "strom_config \<Rightarrow> nat \<Rightarrow> bool \<Rightarrow> nat \<Rightarrow> nat \<Rightarrow> page_item list \<Rightarrow> kern_data_store \<times> nat
     \<Rightarrow> kern_data_store \<times> nat" where
  "insert_block_loop c blknum all_visible tup_index lineoff [] (k, ntup) = (k, ntup)"
| "insert_block_loop c blknum all_visible tup_index lineoff (lpp # rest) (k, ntup) =
     (if \<not> lp_normal lpp
      then insert_block_loop c blknum all_visible tup_index (lineoff + 1) rest (k, ntup)
      else
        let tup = \<lparr>t_len = lp_len lpp, t_self = ItemPointerSet blknum lineoff, t_data = item_data lpp\<rparr>;
            valid = (if all_visible then True else item_visible lpp)
        in if \<not> valid
           then insert_block_loop c blknum all_visible tup_index (lineoff + 1) rest (k, ntup)
           else
             let usage1 = usage k + LONGALIGN (tupitem_htup_off c + t_len tup);
                 tup_item = kds_length k - usage1;
                 m1 = store_uint (mem k) (tup_index + sizeof_cl_uint * ntup) sizeof_cl_uint tup_item;
                 m2 = store_uint m1 tup_item (tupitem_t_len_sz c) (t_len tup);
                 m3 = store_bytes m2 (tup_item + tupitem_t_self_off c) (t_self tup);
                 m4 = store_bytes m3 (tup_item + tupitem_htup_off c) (take (t_len tup) (t_data tup))
             in insert_block_loop c blknum all_visible tup_index (lineoff + 1) rest
                  (k\<lparr>usage := usage1, mem := m4\<rparr>, ntup + 1))"

definition PDS_insert_block ::
  "strom_config \<Rightarrow> kern_data_store \<Rightarrow> heap_page \<Rightarrow> nat \<Rightarrow> bool \<Rightarrow> pg_error + (int \<times> kern_data_store)" where
  "PDS_insert_block c k page blknum taken_during_recovery =
     (if \<not> Assert c (format k = KDS_FORMAT_ROW \<and> nslots k = 0) then Inl AssertFailure
      else
        let lines = length (page_items page);
            max_consume = KDS_CALCULATE_HASH_LENGTH c (ncols k) (nitems k + lines)
                            (tupitem_htup_off c * lines + BLCKSZ c + usage k)
        in if max_consume > kds_length k then Inr (- 1, k)
           else
             let all_visible = (pd_all_visible page \<and> \<not> taken_during_recovery);
                 tup_index = KERN_DATA_STORE_ROWINDEX c k + sizeof_cl_uint * nitems k;
                 (k1, ntup) = insert_block_loop c blknum all_visible tup_index FirstOffsetNumber
                                (page_items page) (k, 0)
             in if \<not> Assert c (ntup \<le> MaxHeapTuplesPerPage c) then Inl AssertFailure
                else if \<not> Assert c (nitems k1 + ntup \<le> nrooms k1) then Inl AssertFailure
                else Inr (int ntup, k1\<lparr>nitems := nitems k1 + ntup\<rparr>))"

section \<open>A sample configuration\<close>

text \<open>One choice of the values that the missing header and the build fix, for
  evaluating the model on concrete chunks. No theorem about all chunks depends on
  it.\<close>

definition sample_config :: strom_config where
  "sample_config =
     \<lparr>USE_ASSERT_CHECKING = False, STROMALIGN_LEN = 16, BLCKSZ = 8192,
      kds_colmeta_off = (\<lambda>n. 64 + 24 * n), KDS_NSLOTS = (\<lambda>n. max 320 (n + n div 4)),
      tupitem_t_len_sz = 2, tupitem_t_self_off = 2, tupitem_htup_off = 8, hashitem_t_off = 12,
      StromError_Success = 0, StromError_CpuReCheck = 1001, StromError_DataStoreNoSpace = 2001,
      StromKernel_CudaRuntime = 1\<rparr>"

text \<open>The same configuration for a build with assertion checking.\<close>

definition checking_config :: strom_config where
  "checking_config = sample_config\<lparr>USE_ASSERT_CHECKING := True\<rparr>"

text \<open>A chunk and a store object of zeros, and the buffer heap before any
  allocation, for the same purpose.\<close>

definition zero_kds :: kern_data_store where
  "zero_kds = \<lparr>kds_length = 0, usage = 0, ncols = 0, nitems = 0, nrooms = 0, format = KDS_FORMAT_ROW,
      nslots = 0, nrows_per_block = 0, mem = (\<lambda>_. 0)\<rparr>"

definition zero_pds :: "kern_data_store pgstrom_data_store" where
  "zero_pds = \<lparr>refcnt = 0, kds = zero_kds\<rparr>"

definition empty_heap :: "kern_data_store dma_heap" where
  "empty_heap = \<lparr>bufs = Map.empty, next_buf = 0, free_log = []\<rparr>"

text \<open>A task whose kernel reported the error code \<open>code\<close>, on the running list,
  and a task state with one running and one completed task.\<close>

definition sample_gpuscan :: "int \<Rightarrow> pgstrom_gpuscan" where
  "sample_gpuscan code =
     \<lparr>task_kerror = \<lparr>errcode = 0, kernel = 0, lineno = 0\<rparr>, task_cpu_fallback = False,
      task_chain_linked = True, kern_kerror = \<lparr>errcode = code, kernel = 2, lineno = 10\<rparr>\<rparr>"

definition sample_gts :: GpuTaskState where
  "sample_gts = \<lparr>running_tasks = [7], num_running_tasks = 1, completed_tasks = [3],
      num_completed_tasks = 1\<rparr>"

text \<open>A caller's sequence of \<^verbatim>\<open>PDS_insert_tuple\<close> calls on one chunk, with the
  boolean each call returned; an error ends it.\<close>

fun insert_tuples ::
  "strom_config \<Rightarrow> kern_data_store \<Rightarrow> nat \<Rightarrow> HeapTupleData list
     \<Rightarrow> pg_error + (bool list \<times> kern_data_store)" where
  "insert_tuples c k natts [] = Inr ([], k)"
| "insert_tuples c k natts (t # ts) =
     (case PDS_insert_tuple c k natts t of
        Inl e \<Rightarrow> Inl e
      | Inr (b, k1) \<Rightarrow>
          (case insert_tuples c k1 natts ts of
             Inl e \<Rightarrow> Inl e
           | Inr (bs, k2) \<Rightarrow> Inr (b # bs, k2)))"

text \<open>A tuple of \<open>n\<close> bytes \<open>b\<close>, an empty slot for two attributes, and chunks of
  the three formats as \<^verbatim>\<open>init_kernel_data_store\<close> leaves them, for two columns.\<close>

definition sample_tuple :: "nat \<Rightarrow> byte \<Rightarrow> HeapTupleData" where
  "sample_tuple n b = \<lparr>t_len = n, t_self = [0, 0, 0, 0, 1, 0], t_data = replicate n b\<rparr>"

definition sample_slot :: TupleTableSlot where
  "sample_slot = \<lparr>tts_natts = 2, tts_content = TTS_EMPTY\<rparr>"

definition sample_chunk :: "kds_format \<Rightarrow> nat \<Rightarrow> nat \<Rightarrow> kern_data_store" where
  "sample_chunk fmt len n_rooms = init_kernel_data_store zero_kds 2 len fmt n_rooms"

text \<open>A Hash-format chunk holding one record.\<close>

definition sample_hash_chunk :: kern_data_store where
  "sample_hash_chunk =
     (case PDS_insert_hashitem sample_config (sample_chunk KDS_FORMAT_HASH 8192 INT_MAX) 2
             (sample_tuple 4 1) 5 of
        Inr (b, k) \<Rightarrow> k
      | Inl e \<Rightarrow> zero_kds)"

section \<open>Well-formed configurations, tuples and chunks\<close>

text \<open>
  What the theorems ask of the configuration: the alignment unit is positive, and the
  fields \<^verbatim>\<open>t_len\<close>, \<^verbatim>\<open>t_self\<close> (six bytes) and \<^verbatim>\<open>htup\<close> of a
  \<^verbatim>\<open>kern_tupitem\<close> follow each other without overlap, as do the three
  \<^verbatim>\<open>cl_uint\<close> fields of a \<^verbatim>\<open>kern_hashitem\<close> and its \<^verbatim>\<open>t\<close>. Of a tuple: its
  item pointer has six bytes, \<^verbatim>\<open>t_data\<close> points to at least \<^verbatim>\<open>t_len\<close> bytes, and
  the length fits the \<^verbatim>\<open>t_len\<close> field of \<^verbatim>\<open>kern_tupitem\<close>.
\<close>

definition config_ok :: "strom_config \<Rightarrow> bool" where
  "config_ok c \<longleftrightarrow>
     0 < STROMALIGN_LEN c \<and> tupitem_t_len_sz c \<le> tupitem_t_self_off c \<and>
     tupitem_t_self_off c + 6 \<le> tupitem_htup_off c \<and> 12 \<le> hashitem_t_off c"

definition tuple_ok :: "strom_config \<Rightarrow> HeapTupleData \<Rightarrow> bool" where
  "tuple_ok c t \<longleftrightarrow>
     length (t_self t) = 6 \<and> t_len t \<le> length (t_data t) \<and> t_len t < 256 ^ tupitem_t_len_sz c"

text \<open>The record a tuple stands for, which is its first \<^verbatim>\<open>t_len\<close> bytes, and the
  record found in memory at the offset of a \<^verbatim>\<open>kern_tupitem\<close>.\<close>

definition tuple_view :: "HeapTupleData \<Rightarrow> HeapTupleData" where
  "tuple_view t = t\<lparr>t_data := take (t_len t) (t_data t)\<rparr>"

definition stored_tuple :: "strom_config \<Rightarrow> (nat \<Rightarrow> byte) \<Rightarrow> nat \<Rightarrow> HeapTupleData" where
  "stored_tuple c m off =
     \<lparr>t_len = load_uint m off (tupitem_t_len_sz c),
      t_self = load_bytes m (off + tupitem_t_self_off c) 6,
      t_data = load_bytes m (off + tupitem_htup_off c) (load_uint m off (tupitem_t_len_sz c))\<rparr>"

text \<open>A chunk holds the records \<open>ts\<close>, in this order: it counts as many, and the
  \<open>i\<close>-th index entry points to a \<^verbatim>\<open>kern_tupitem\<close> inside the used part at the far
  end of the chunk where the \<open>i\<close>-th record is found. Offsets are \<^verbatim>\<open>cl_uint\<close>, so
  the chunk is shorter than 4GB.\<close>

definition holds_records :: "strom_config \<Rightarrow> kern_data_store \<Rightarrow> HeapTupleData list \<Rightarrow> bool" where
  "holds_records c k ts \<longleftrightarrow>
     nitems k = length ts \<and> kds_length k < 2 ^ 32 \<and>
     (\<forall>i < length ts.
        kds_length k - usage k \<le> KERN_DATA_STORE_TUPITEM c k i \<and>
        KERN_DATA_STORE_TUPITEM c k i + tupitem_htup_off c + t_len (ts ! i) \<le> kds_length k \<and>
        stored_tuple c (mem k) (KERN_DATA_STORE_TUPITEM c k i) = ts ! i)"

text \<open>The three stores that fill a \<^verbatim>\<open>kern_tupitem\<close> at an offset, which the insert
  functions perform one after the other.\<close>

definition write_tupitem :: "strom_config \<Rightarrow> (nat \<Rightarrow> byte) \<Rightarrow> nat \<Rightarrow> HeapTupleData \<Rightarrow> (nat \<Rightarrow> byte)" where
  "write_tupitem c m off t =
     store_bytes
       (store_bytes (store_uint m off (tupitem_t_len_sz c) (t_len t))
          (off + tupitem_t_self_off c) (t_self t))
       (off + tupitem_htup_off c) (take (t_len t) (t_data t))"

text \<open>The tuples of a sequence of insert calls whose call returned true.\<close>

definition accepted :: "bool list \<Rightarrow> HeapTupleData list \<Rightarrow> HeapTupleData list" where
  "accepted bs ts = map snd (filter fst (zip bs ts))"

text \<open>A Row-format chunk with room for two records that holds two.\<close>

definition sample_row_chunk :: kern_data_store where
  "sample_row_chunk =
     (case insert_tuples sample_config (sample_chunk KDS_FORMAT_ROW 4096 2) 2
             [sample_tuple 4 1, sample_tuple 8 2] of
        Inr (bs, k) \<Rightarrow> k
      | Inl e \<Rightarrow> zero_kds)"




text \<open>A Row- or Hash-format chunk is laid out well when the length the format needs for
  its records and used bytes fits the chunk, and every index entry points to a
  \<^verbatim>\<open>kern_tupitem\<close> that lies, with the record it announces, inside the used part at
  the far end.\<close>

definition chunk_ok :: "strom_config \<Rightarrow> kern_data_store \<Rightarrow> bool" where
  "chunk_ok c k \<longleftrightarrow>
     (if format k = KDS_FORMAT_HASH
      then KDS_CALCULATE_HASH_LENGTH c (ncols k) (nitems k) (usage k)
      else KDS_CALCULATE_ROW_LENGTH c (ncols k) (nitems k) (usage k)) \<le> kds_length k \<and>
     (\<forall>i < nitems k.
        kds_length k - usage k \<le> KERN_DATA_STORE_TUPITEM c k i \<and>
        KERN_DATA_STORE_TUPITEM c k i + tupitem_htup_off c
          + t_len (stored_tuple c (mem k) (KERN_DATA_STORE_TUPITEM c k i)) \<le> kds_length k)"

text \<open>The tuples \<^verbatim>\<open>PDS_insert_block\<close> sets up for the visible records of a page, in
  the order of their line pointers: a normal line pointer whose item is visible, or any
  normal line pointer when the page is all-visible, gives a tuple with the item's length
  and bytes and the item pointer of block and line.\<close>

fun visible_tuples :: "nat \<Rightarrow> bool \<Rightarrow> nat \<Rightarrow> page_item list \<Rightarrow> HeapTupleData list" where
  "visible_tuples blknum all_visible lineoff [] = []"
| "visible_tuples blknum all_visible lineoff (lpp # rest) =
     (if lp_normal lpp \<and> (all_visible \<or> item_visible lpp)
      then \<lparr>t_len = lp_len lpp, t_self = ItemPointerSet blknum lineoff, t_data = item_data lpp\<rparr>
             # visible_tuples blknum all_visible (lineoff + 1) rest
      else visible_tuples blknum all_visible (lineoff + 1) rest)"

text \<open>A heap page as PostgreSQL keeps it: no more line pointers than
  \<^verbatim>\<open>MaxHeapTuplesPerPage\<close>; the item of a normal line pointer has the length the line
  pointer gives, which fits the \<^verbatim>\<open>t_len\<close> field of a \<^verbatim>\<open>kern_tupitem\<close>; and the
  items, each \<^verbatim>\<open>MAXALIGN\<close>ed, fit the page.\<close>

definition page_ok :: "strom_config \<Rightarrow> heap_page \<Rightarrow> bool" where
  "page_ok c page \<longleftrightarrow>
     length (page_items page) \<le> MaxHeapTuplesPerPage c \<and>
     (\<forall>lpp \<in> set (page_items page).
        lp_normal lpp \<longrightarrow> lp_len lpp \<le> length (item_data lpp) \<and> lp_len lpp < 256 ^ tupitem_t_len_sz c) \<and>
     sum_list (map (\<lambda>lpp. MAXALIGN (lp_len lpp)) (filter lp_normal (page_items page))) \<le> BLCKSZ c"

text \<open>A page with three line pointers: a visible record of four bytes, an unused line
  pointer, and a record of two bytes that the snapshot does not see.\<close>

definition sample_page :: heap_page where
  "sample_page =
     \<lparr>pd_all_visible = False,
      page_items =
        [\<lparr>lp_normal = True, lp_len = 4, item_data = [1, 2, 3, 4], item_visible = True\<rparr>,
         \<lparr>lp_normal = False, lp_len = 0, item_data = [], item_visible = False\<rparr>,
         \<lparr>lp_normal = True, lp_len = 2, item_data = [9, 9], item_visible = False\<rparr>]\<rparr>"

text \<open>A Row-format chunk of 16384 bytes that holds two records, and one of 30304 bytes
  that holds 1100 records of 4 bytes, which leaves 8192 bytes unused.\<close>

definition sample_slack_chunk :: kern_data_store where
  "sample_slack_chunk =
     (case insert_tuples sample_config (sample_chunk KDS_FORMAT_ROW 16384 2) 2
             [sample_tuple 4 1, sample_tuple 8 2] of
        Inr (bs, k) \<Rightarrow> k
      | Inl e \<Rightarrow> zero_kds)"

definition sample_packed_chunk :: kern_data_store where
  "sample_packed_chunk =
     (case insert_tuples sample_config (sample_chunk KDS_FORMAT_ROW 30304 INT_MAX) 2
             (replicate 1100 (sample_tuple 4 1)) of
        Inr (bs, k) \<Rightarrow> k
      | Inl e \<Rightarrow> zero_kds)"


section \<open>Auxiliary facts\<close>

lemma count_list_replicate_eq:
  "count_list (replicate n x) y = (if x = y then n else 0)"
  by (induction n) auto

lemma run_ref_ops_freed:
  "bufs h p = None \<Longrightarrow> run_ref_ops c h p ops = Inr h' \<Longrightarrow> ops = [] \<and> h' = h"
proof (cases ops)
  case Nil
  assume "run_ref_ops c h p ops = Inr h'"
  with Nil show ?thesis by simp
next
  case (Cons x xs)
  assume "bufs h p = None" "run_ref_ops c h p ops = Inr h'"
  with Cons show ?thesis
    by (cases x) (simp_all add: PDS_retain_def PDS_release_def)
qed

lemma cl_int_id: "- (2 ^ 31) \<le> x \<Longrightarrow> x < 2 ^ 31 \<Longrightarrow> cl_int x = x"
proof -
  assume "- (2 ^ 31) \<le> x" "x < 2 ^ 31"
  then have "0 \<le> x + 2 ^ 31" "x + 2 ^ 31 < 2 ^ 32" by simp_all
  then have "(x + 2 ^ 31) mod 2 ^ 32 = x + 2 ^ 31" by (rule mod_pos_pos_trivial)
  then show ?thesis by (simp add: cl_int_def)
qed

lemma cl_int_0 [simp]: "cl_int 0 = 0"
  by (simp add: cl_int_def)

lemma run_ref_ops_counts:
  "bufs h p = Some obj \<Longrightarrow> 0 < refcnt obj \<Longrightarrow>
   refcnt obj + int (count_list ops Retain) < 2 ^ 31 \<Longrightarrow> run_ref_ops c h p ops = Inr h' \<Longrightarrow>
     int (count_list ops Release) \<le> refcnt obj + int (count_list ops Retain) \<and>
     (if int (count_list ops Release) = refcnt obj + int (count_list ops Retain)
      then bufs h' p = None \<and> free_log h' = free_log h @ [p]
      else bufs h' p = Some (obj\<lparr>refcnt := refcnt obj + int (count_list ops Retain)
                                           - int (count_list ops Release)\<rparr>)
           \<and> free_log h' = free_log h)"
proof (induction ops arbitrary: h obj)
  case Nil
  then show ?case by simp
next
  case (Cons x ops)
  from Cons.prems(2,3) have rng: "0 < refcnt obj" "refcnt obj < 2 ^ 31" by simp_all
  then have dec: "cl_int (refcnt obj - 1) = refcnt obj - 1" by (intro cl_int_id) simp_all
  show ?case
  proof (cases x)
    case Retain
    with Cons.prems(3) have up: "refcnt obj + 1 + int (count_list ops Retain) < 2 ^ 31" by simp
    with rng have inc: "cl_int (refcnt obj + 1) = refcnt obj + 1" by (intro cl_int_id) simp_all
    let ?o = "obj\<lparr>refcnt := refcnt obj + 1\<rparr>"
    let ?h = "h\<lparr>bufs := (bufs h)(p \<mapsto> ?o)\<rparr>"
    from Cons.prems Retain have run: "run_ref_ops c ?h p ops = Inr h'"
      by (simp add: PDS_retain_def Assert_def inc)
    have "bufs ?h p = Some ?o" "0 < refcnt ?o" "refcnt ?o + int (count_list ops Retain) < 2 ^ 31"
      using Cons.prems up by simp_all
    from Cons.IH[OF this run] Retain show ?thesis by (simp split: if_splits)
  next
    case Release
    show ?thesis
    proof (cases "refcnt obj = 1")
      case True
      let ?h = "dmaBufferFree (h\<lparr>bufs := (bufs h)(p \<mapsto> obj\<lparr>refcnt := refcnt obj - 1\<rparr>)\<rparr>) p"
      from Cons.prems Release True have run: "run_ref_ops c ?h p ops = Inr h'"
        by (simp add: PDS_release_def Assert_def dec)
      have "bufs ?h p = None" by (simp add: dmaBufferFree_def)
      from run_ref_ops_freed[OF this run] Release True show ?thesis
        by (simp add: dmaBufferFree_def)
    next
      case False
      let ?o = "obj\<lparr>refcnt := refcnt obj - 1\<rparr>"
      let ?h = "h\<lparr>bufs := (bufs h)(p \<mapsto> ?o)\<rparr>"
      from Cons.prems Release False have run: "run_ref_ops c ?h p ops = Inr h'"
        by (simp add: PDS_release_def Assert_def dec)
      have "bufs ?h p = Some ?o" "0 < refcnt ?o" "refcnt ?o + int (count_list ops Retain) < 2 ^ 31"
        using Cons.prems False Release by simp_all
      from Cons.IH[OF this run] Release show ?thesis by (simp split: if_splits)
    qed
  qed
qed

lemma run_ref_ops_append:
  "run_ref_ops c h p (xs @ ys) =
     (case run_ref_ops c h p xs of Inl e \<Rightarrow> Inl e | Inr h' \<Rightarrow> run_ref_ops c h' p ys)"
  by (induction c h p xs rule: run_ref_ops.induct)
     (auto simp: PDS_retain_def split: sum.splits option.splits)

text \<open>Retain calls return as long as the count before each of them is positive; the
  last of them may take the count beyond the range.\<close>

lemma run_retains_ok:
  "bufs h p = Some obj \<Longrightarrow> 0 < refcnt obj \<Longrightarrow> refcnt obj < 2 ^ 31 \<Longrightarrow>
   refcnt obj + int K \<le> 2 ^ 31 \<Longrightarrow>
     \<exists>h'. run_ref_ops c h p (replicate K Retain) = Inr h'
        \<and> bufs h' p = Some (obj\<lparr>refcnt := cl_int (refcnt obj + int K)\<rparr>)
        \<and> free_log h' = free_log h"
proof (induction K arbitrary: h obj)
  case 0
  then have "cl_int (refcnt obj) = refcnt obj" by (intro cl_int_id) simp_all
  with 0 show ?case by simp
next
  case (Suc K)
  show ?case
  proof (cases K)
    case 0
    with Suc.prems show ?thesis by (simp add: PDS_retain_def Assert_def)
  next
    case (Suc K')
    with Suc.prems have "- (2 ^ 31) \<le> refcnt obj + 1" and \<open>refcnt obj + 1 < 2 ^ 31\<close> by simp_all
    then have inc: "cl_int (refcnt obj + 1) = refcnt obj + 1" by (rule cl_int_id)
    let ?o = "obj\<lparr>refcnt := refcnt obj + 1\<rparr>"
    let ?h = "h\<lparr>bufs := (bufs h)(p \<mapsto> ?o)\<rparr>"
    have "bufs ?h p = Some ?o" "0 < refcnt ?o" "refcnt ?o < 2 ^ 31" "refcnt ?o + int K \<le> 2 ^ 31"
      using Suc.prems \<open>refcnt obj + 1 < 2 ^ 31\<close> by simp_all
    from Suc.IH[OF this] obtain h' where r: "run_ref_ops c ?h p (replicate K Retain) = Inr h'"
      "bufs h' p = Some (?o\<lparr>refcnt := cl_int (refcnt ?o + int K)\<rparr>)" "free_log h' = free_log ?h"
      by blast
    have step: "run_ref_ops c h p (replicate (Suc K) Retain) = run_ref_ops c ?h p (replicate K Retain)"
      using Suc.prems(1,2) by (simp add: PDS_retain_def Assert_def inc)
    have e: "refcnt ?o + int K = refcnt obj + int (Suc K)" by simp
    from r(2) have "bufs h' p = Some (obj\<lparr>refcnt := cl_int (refcnt obj + int (Suc K))\<rparr>)"
      unfolding e by simp
    with r(1,3) step show ?thesis by simp
  qed
qed

lemma run_releases_ok:
  "bufs h p = Some obj \<Longrightarrow> int j \<le> refcnt obj \<Longrightarrow> refcnt obj < 2 ^ 31 \<Longrightarrow>
     \<exists>h'. run_ref_ops c h p (replicate j Release) = Inr h'"
proof (induction j arbitrary: h obj)
  case 0
  then show ?case by simp
next
  case (Suc j)
  from Suc.prems have "- (2 ^ 31) \<le> refcnt obj - 1" "refcnt obj - 1 < 2 ^ 31" by simp_all
  then have dec: "cl_int (refcnt obj - 1) = refcnt obj - 1" by (rule cl_int_id)
  show ?case
  proof (cases "refcnt obj = 1")
    case True
    with Suc.prems have "j = 0" by simp
    with Suc.prems True show ?thesis
      by (simp add: PDS_release_def Assert_def dec)
  next
    case False
    let ?o = "obj\<lparr>refcnt := refcnt obj - 1\<rparr>"
    let ?h = "h\<lparr>bufs := (bufs h)(p \<mapsto> ?o)\<rparr>"
    have "bufs ?h p = Some ?o" "int j \<le> refcnt ?o" "refcnt ?o < 2 ^ 31" using Suc.prems by simp_all
    from Suc.IH[OF this] obtain h' where "run_ref_ops c ?h p (replicate j Release) = Inr h'" ..
    with Suc.prems False show ?thesis
      by (simp add: PDS_release_def Assert_def dec)
  qed
qed

lemma PDS_create_row_obj:
  "PDS_create_row c h0 natts len junk = (h, pds) \<Longrightarrow>
     pds = next_buf h0 \<and> free_log h = free_log h0 \<and>
     bufs h pds = Some (junk\<lparr>refcnt := 1,
        kds := init_kernel_data_store (kds junk) natts (STROMALIGN_DOWN c len) KDS_FORMAT_ROW INT_MAX\<rparr>)"
  by (auto simp: PDS_create_row_def dmaBufferAlloc_def Let_def)

text \<open>Unfolding the layout on the sample configuration.\<close>

lemmas sample_layout_defs =
  sample_config_def sample_chunk_def init_kernel_data_store_def zero_kds_def sample_tuple_def
  KDS_CALCULATE_ROW_LENGTH_def KDS_CALCULATE_HASH_LENGTH_def KDS_CALCULATE_ROW_FRONTLEN_def
  KDS_CALCULATE_HASH_FRONTLEN_def KDS_CALCULATE_HEAD_LENGTH_def STROMALIGN_def STROMALIGN_DOWN_def
  TYPEALIGN_def TYPEALIGN_DOWN_def MAXALIGN_def LONGALIGN_def sizeof_cl_uint_def sizeof_Datum_def
  INT_MAX_def Assert_def

lemma sample_hash_chunk_fields:
  "nitems sample_hash_chunk = 1 \<and> format sample_hash_chunk = KDS_FORMAT_HASH"
  by (simp add: sample_hash_chunk_def PDS_insert_hashitem_def Let_def sample_layout_defs)

subsection \<open>Alignment\<close>

lemma TYPEALIGN_ge: "0 < a \<Longrightarrow> len \<le> TYPEALIGN a len"
proof -
  assume a: "0 < a"
  have "len + (a - 1) = (len + (a - 1)) div a * a + (len + (a - 1)) mod a" by simp
  moreover have "(len + (a - 1)) mod a \<le> a - 1" using a
    by (metis Suc_pred' less_Suc_eq_le mod_less_divisor)
  ultimately show ?thesis unfolding TYPEALIGN_def by linarith
qed


lemma TYPEALIGN_mono: "x \<le> y \<Longrightarrow> TYPEALIGN a x \<le> TYPEALIGN a y"
  unfolding TYPEALIGN_def by (simp add: div_le_mono mult_le_mono1)

lemma TYPEALIGN_dvd: "a dvd TYPEALIGN a len"
  unfolding TYPEALIGN_def by simp

lemma TYPEALIGN_DOWN_le: "TYPEALIGN_DOWN a len \<le> len"
  unfolding TYPEALIGN_DOWN_def by simp



lemma TYPEALIGN_DOWN_mono: "x \<le> y \<Longrightarrow> TYPEALIGN_DOWN a x \<le> TYPEALIGN_DOWN a y"
  unfolding TYPEALIGN_DOWN_def by (simp add: div_le_mono mult_le_mono1)

subsection \<open>Bytes in memory\<close>

lemma length_load_bytes [simp]: "length (load_bytes m a n) = n"
  by (simp add: load_bytes_def)

lemma length_le_bytes [simp]: "length (le_bytes n v) = n"
  by (simp add: le_bytes_def)

lemma store_bytes_apply:
  "store_bytes m a bs x = (if a \<le> x \<and> x < a + length bs then bs ! (x - a) else m x)"
  by (simp add: store_bytes_def)

lemma load_bytes_cong:
  "(\<And>x. a \<le> x \<Longrightarrow> x < a + n \<Longrightarrow> m x = m' x) \<Longrightarrow> load_bytes m a n = load_bytes m' a n"
  by (simp add: load_bytes_def)

lemma load_store_same: "load_bytes (store_bytes m a bs) a (length bs) = bs"
  by (rule nth_equalityI) (simp_all add: load_bytes_def store_bytes_def)


lemma load_store_disj:
  "a + length bs \<le> b \<or> b + n \<le> a \<Longrightarrow> load_bytes (store_bytes m a bs) b n = load_bytes m b n"
  by (rule load_bytes_cong) (auto simp: store_bytes_def)

lemma le_bytes_Suc: "le_bytes (Suc n) v = of_nat v # le_bytes n (v div 256)"
proof -
  have "[0..<Suc n] = 0 # map Suc [0..<n]"
    by (simp add: upt_conv_Cons map_Suc_upt del: upt_Suc)
  then show ?thesis
    by (simp add: le_bytes_def div_mult2_eq del: upt_Suc)
qed

lemma le_nat_le_bytes: "le_nat (le_bytes n v) = v mod 256 ^ n"
proof (induction n arbitrary: v)
  case 0
  then show ?case by (simp add: le_bytes_def le_nat_def)
next
  case (Suc n)
  have "le_nat (le_bytes (Suc n) v) = unat (of_nat v :: byte) + 256 * le_nat (le_bytes n (v div 256))"
    by (simp add: le_bytes_Suc le_nat_def)
  also have "\<dots> = v mod 256 + 256 * ((v div 256) mod 256 ^ n)"
    by (simp add: Suc.IH unat_of_nat)
  also have "\<dots> = v mod 256 ^ Suc n"
    by (simp add: mod_mult2_eq)
  finally show ?case .
qed

lemma load_store_uint_same: "load_uint (store_uint m a n v) a n = v mod 256 ^ n"
  using load_store_same[of m a "le_bytes n v"]
  by (simp add: load_uint_def store_uint_def le_nat_le_bytes)

lemma load_uint_store_bytes_disj:
  "a + length bs \<le> b \<or> b + n \<le> a \<Longrightarrow> load_uint (store_bytes m a bs) b n = load_uint m b n"
  by (simp add: load_uint_def load_store_disj)



subsection \<open>Records in memory\<close>

lemma load_uint_cong:
  "(\<And>x. a \<le> x \<Longrightarrow> x < a + n \<Longrightarrow> m x = m' x) \<Longrightarrow> load_uint m a n = load_uint m' a n"
  unfolding load_uint_def by (simp add: load_bytes_cong[of a n m m'])

lemma store_uint_apply_outside:
  "x < a \<or> a + n \<le> x \<Longrightarrow> store_uint m a n v x = m x"
  by (auto simp: store_uint_def store_bytes_def)

lemma store_bytes_apply_outside:
  "x < a \<or> a + length bs \<le> x \<Longrightarrow> store_bytes m a bs x = m x"
  by (auto simp: store_bytes_def)

lemma write_tupitem_outside:
  assumes "config_ok c" "tuple_ok c t" "x < off \<or> off + tupitem_htup_off c + t_len t \<le> x"
  shows "write_tupitem c m off t x = m x"
proof -
  from assms have "x < off \<or> off + tupitem_t_len_sz c \<le> x"
    "x < off + tupitem_t_self_off c \<or> off + tupitem_t_self_off c + length (t_self t) \<le> x"
    "x < off + tupitem_htup_off c \<or> off + tupitem_htup_off c + length (take (t_len t) (t_data t)) \<le> x"
    by (auto simp: config_ok_def tuple_ok_def)
  then show ?thesis
    by (simp add: write_tupitem_def store_bytes_apply_outside store_uint_apply_outside)
qed

lemma stored_tuple_cong:
  assumes "config_ok c"
    and "\<And>x. off \<le> x \<Longrightarrow> x < off + tupitem_htup_off c + t_len (stored_tuple c m off) \<Longrightarrow> m' x = m x"
  shows "stored_tuple c m' off = stored_tuple c m off"
proof -
  let ?len = "load_uint m off (tupitem_t_len_sz c)"
  have len: "t_len (stored_tuple c m off) = ?len" by (simp add: stored_tuple_def)
  from assms(1) have lay: "tupitem_t_len_sz c \<le> tupitem_htup_off c"
    "tupitem_t_self_off c + 6 \<le> tupitem_htup_off c"
    by (auto simp: config_ok_def)
  have 1: "load_uint m' off (tupitem_t_len_sz c) = ?len"
    by (rule load_uint_cong) (use assms(2) lay in auto)
  have 2: "load_bytes m' (off + tupitem_t_self_off c) 6 = load_bytes m (off + tupitem_t_self_off c) 6"
    by (rule load_bytes_cong) (use assms(2) lay in auto)
  have 3: "load_bytes m' (off + tupitem_htup_off c) ?len = load_bytes m (off + tupitem_htup_off c) ?len"
    by (rule load_bytes_cong) (use assms(2) len in auto)
  show ?thesis by (simp add: stored_tuple_def 1 2 3)
qed

lemma stored_write_tupitem:
  assumes "config_ok c" "tuple_ok c t"
  shows "stored_tuple c (write_tupitem c m off t) off = tuple_view t"
proof -
  let ?sz = "tupitem_t_len_sz c" and ?so = "tupitem_t_self_off c" and ?ho = "tupitem_htup_off c"
  let ?m1 = "store_uint m off ?sz (t_len t)"
  let ?m2 = "store_bytes ?m1 (off + ?so) (t_self t)"
  let ?d = "take (t_len t) (t_data t)"
  from assms have lay: "?sz \<le> ?so" "?so + 6 \<le> ?ho" and tup: "length (t_self t) = 6"
    "length ?d = t_len t" "t_len t < 256 ^ ?sz"
    by (auto simp: config_ok_def tuple_ok_def)
  have 1: "load_uint (write_tupitem c m off t) off ?sz = t_len t"
    using lay tup
    by (simp add: write_tupitem_def load_uint_store_bytes_disj load_store_uint_same)
  have 2: "load_bytes (write_tupitem c m off t) (off + ?so) 6 = t_self t"
    using lay tup load_store_same[of ?m1 "off + ?so" "t_self t"]
    by (simp add: write_tupitem_def load_store_disj)
  have 3: "load_bytes (write_tupitem c m off t) (off + ?ho) (t_len t) = ?d"
    using tup load_store_same[of ?m2 "off + ?ho" ?d]
    by (simp add: write_tupitem_def)
  show ?thesis
    by (simp add: stored_tuple_def tuple_view_def 1 2 3)
qed

subsection \<open>A successful insert\<close>

lemma STROMALIGN_ge: "config_ok c \<Longrightarrow> len \<le> STROMALIGN c len"
  by (simp add: STROMALIGN_def config_ok_def TYPEALIGN_ge)

lemma LONGALIGN_ge: "len \<le> LONGALIGN len"
  by (simp add: LONGALIGN_def TYPEALIGN_ge)

lemma MAXALIGN_ge: "len \<le> MAXALIGN len"
  by (simp add: MAXALIGN_def TYPEALIGN_ge)

lemma ROW_LENGTH_ge:
  "config_ok c \<Longrightarrow>
     KDS_CALCULATE_HEAD_LENGTH c nc + sizeof_cl_uint * n + d \<le> KDS_CALCULATE_ROW_LENGTH c nc n d"
  using STROMALIGN_ge[of c "sizeof_cl_uint * n"] STROMALIGN_ge[of c d]
  by (simp add: KDS_CALCULATE_ROW_LENGTH_def KDS_CALCULATE_ROW_FRONTLEN_def)

lemma PDS_insert_tuple_True:
  assumes "PDS_insert_tuple c k natts t = Inr (True, k')"
  shows "format k = KDS_FORMAT_ROW \<and> nitems k < nrooms k
    \<and> KDS_CALCULATE_ROW_LENGTH c (ncols k) (nitems k + 1)
         (LONGALIGN (tupitem_htup_off c + t_len t) + usage k) \<le> kds_length k
    \<and> k' = k\<lparr>usage := usage k + LONGALIGN (tupitem_htup_off c + t_len t),
              nitems := nitems k + 1,
              mem := store_uint
                (write_tupitem c (mem k)
                   (kds_length k - (usage k + LONGALIGN (tupitem_htup_off c + t_len t))) t)
                (KERN_DATA_STORE_ROWINDEX c k + sizeof_cl_uint * nitems k) sizeof_cl_uint
                (kds_length k - (usage k + LONGALIGN (tupitem_htup_off c + t_len t)))\<rparr>"
  using assms
  by (auto simp: PDS_insert_tuple_def Let_def write_tupitem_def split: if_splits)

lemma holds_records_put:
  assumes c: "config_ok c" and inv: "holds_records c k ts"
    and room: "KERN_DATA_STORE_ROWINDEX c k + 4 * nitems k + 4 + r + usage k \<le> kds_length k"
    and r: "tupitem_htup_off c + t_len v \<le> r"
    and frame: "\<And>x. x < KERN_DATA_STORE_ROWINDEX c k + 4 * nitems k
                      \<or> KERN_DATA_STORE_ROWINDEX c k + 4 * nitems k + 4 \<le> x \<Longrightarrow>
                   x < kds_length k - (usage k + r)
                      \<or> kds_length k - (usage k + r) + tupitem_htup_off c + t_len v \<le> x \<Longrightarrow>
                   M x = mem k x"
    and idx: "load_uint M (KERN_DATA_STORE_ROWINDEX c k + 4 * nitems k) 4 = kds_length k - (usage k + r)"
    and st: "stored_tuple c M (kds_length k - (usage k + r)) = v"
    and k': "k' = k\<lparr>usage := usage k + r, nitems := nitems k + 1, mem := M\<rparr>"
  shows "holds_records c k' (ts @ [v])"
proof -
  let ?H = "KERN_DATA_STORE_ROWINDEX c k"
  let ?L = "kds_length k" and ?u = "usage k" and ?n = "nitems k"
  let ?off = "?L - (?u + r)"
  from inv have n: "?n = length ts" and L32: "?L < 2 ^ 32"
    and items: "\<And>i. i < length ts \<Longrightarrow>
        ?L - ?u \<le> KERN_DATA_STORE_TUPITEM c k i \<and>
        KERN_DATA_STORE_TUPITEM c k i + tupitem_htup_off c + t_len (ts ! i) \<le> ?L \<and>
        stored_tuple c (mem k) (KERN_DATA_STORE_TUPITEM c k i) = ts ! i"
    by (auto simp: holds_records_def)
  have H': "KERN_DATA_STORE_ROWINDEX c k' = ?H"
    by (simp add: k' KERN_DATA_STORE_ROWINDEX_def KERN_DATA_STORE_BODY_def)
  have mk': "mem k' = M" by (simp add: k')
  have fl: "kds_length k' = ?L" "usage k' = ?u + r" "nitems k' = ?n + 1"
    by (simp_all add: k')
  have idx_old: "KERN_DATA_STORE_TUPITEM c k' i = KERN_DATA_STORE_TUPITEM c k i" if "i < ?n" for i
  proof -
    have "load_uint M (?H + 4 * i) 4 = load_uint (mem k) (?H + 4 * i) 4"
      by (rule load_uint_cong[symmetric], rule frame[symmetric]) (use that room in auto)
    then show ?thesis by (simp add: KERN_DATA_STORE_TUPITEM_def H' mk' sizeof_cl_uint_def)
  qed
  have idx_new: "KERN_DATA_STORE_TUPITEM c k' ?n = ?off"
    using idx by (simp add: KERN_DATA_STORE_TUPITEM_def H' mk' sizeof_cl_uint_def)
  have st_old: "stored_tuple c M (KERN_DATA_STORE_TUPITEM c k i) = ts ! i" if "i < length ts" for i
  proof -
    let ?o = "KERN_DATA_STORE_TUPITEM c k i"
    from items[OF that] have lo: "?L - ?u \<le> ?o" and s: "stored_tuple c (mem k) ?o = ts ! i" by simp_all
    have "stored_tuple c M ?o = stored_tuple c (mem k) ?o"
    proof (rule stored_tuple_cong[OF c])
      fix x assume "?o \<le> x"
      with lo room r have "?H + 4 * ?n + 4 \<le> x" "?off + tupitem_htup_off c + t_len v \<le> x"
        by simp_all
      then show "M x = mem k x" by (simp add: frame)
    qed
    with s show ?thesis by simp
  qed
  show ?thesis
    unfolding holds_records_def
  proof (intro conjI allI impI)
    show "nitems k' = length (ts @ [v])" by (simp add: fl n)
    show "kds_length k' < 2 ^ 32" using L32 by (simp add: fl)
  next
    fix i assume i: "i < length (ts @ [v])"
    show "kds_length k' - usage k' \<le> KERN_DATA_STORE_TUPITEM c k' i"
    proof (cases "i < length ts")
      case True
      then have "i < ?n" by (simp add: n)
      from items[OF True] idx_old[OF this] show ?thesis unfolding fl by linarith
    next
      case False
      with i have "i = ?n" by (simp add: n)
      with idx_new show ?thesis by (simp add: fl)
    qed
    show "KERN_DATA_STORE_TUPITEM c k' i + tupitem_htup_off c + t_len ((ts @ [v]) ! i) \<le> kds_length k'"
    proof (cases "i < length ts")
      case True
      then have "i < ?n" by (simp add: n)
      from items[OF True] idx_old[OF this] True show ?thesis by (simp add: fl nth_append)
    next
      case False
      with i have "i = ?n" by (simp add: n)
      with idx_new room r n show ?thesis by (simp add: fl nth_append)
    qed
    show "stored_tuple c (mem k') (KERN_DATA_STORE_TUPITEM c k' i) = (ts @ [v]) ! i"
    proof (cases "i < length ts")
      case True
      then have "i < ?n" by (simp add: n)
      from st_old[OF True] idx_old[OF this] True show ?thesis by (simp add: mk' nth_append)
    next
      case False
      with i have "i = ?n" by (simp add: n)
      with idx_new st n show ?thesis by (simp add: mk' nth_append)
    qed
  qed
qed

lemma holds_records_insert:
  assumes c: "config_ok c" and t: "tuple_ok c t" and inv: "holds_records c k ts"
    and ins: "PDS_insert_tuple c k natts t = Inr (True, k')"
  shows "holds_records c k' (ts @ [tuple_view t])"
proof -
  let ?H = "KERN_DATA_STORE_ROWINDEX c k"
  let ?r = "LONGALIGN (tupitem_htup_off c + t_len t)"
  let ?L = "kds_length k" and ?u = "usage k" and ?n = "nitems k"
  let ?off = "?L - (?u + ?r)"
  let ?m = "write_tupitem c (mem k) ?off t"
  let ?m' = "store_uint ?m (?H + 4 * ?n) 4 ?off"
  from PDS_insert_tuple_True[OF ins]
  have chk: "KDS_CALCULATE_ROW_LENGTH c (ncols k) (?n + 1) (?r + ?u) \<le> ?L"
    and k': "k' = k\<lparr>usage := ?u + ?r, nitems := ?n + 1, mem := ?m'\<rparr>"
    by (simp_all add: sizeof_cl_uint_def)
  from inv have L32: "?L < 2 ^ 32" by (simp add: holds_records_def)
  have H: "?H = KDS_CALCULATE_HEAD_LENGTH c (ncols k)"
    by (simp add: KERN_DATA_STORE_ROWINDEX_def KERN_DATA_STORE_BODY_def)
  from ROW_LENGTH_ge[OF c, of "ncols k" "?n + 1" "?r + ?u"] chk H
  have room: "?H + 4 * ?n + 4 + ?r + ?u \<le> ?L" by (simp add: sizeof_cl_uint_def)
  have v: "t_len (tuple_view t) = t_len t" by (simp add: tuple_view_def)
  have r: "tupitem_htup_off c + t_len (tuple_view t) \<le> ?r" unfolding v by (rule LONGALIGN_ge)
  have frame: "?m' x = mem k x"
    if "x < ?H + 4 * ?n \<or> ?H + 4 * ?n + 4 \<le> x"
       "x < ?off \<or> ?off + tupitem_htup_off c + t_len (tuple_view t) \<le> x" for x
    using that by (simp add: v store_uint_apply_outside write_tupitem_outside[OF c t])
  have idx: "load_uint ?m' (?H + 4 * ?n) 4 = ?off"
  proof -
    have "?off < 256 ^ 4" using L32 by simp
    then show ?thesis by (simp add: load_store_uint_same)
  qed
  have st: "stored_tuple c ?m' ?off = tuple_view t"
  proof -
    have "stored_tuple c ?m' ?off = stored_tuple c ?m ?off"
    proof (rule stored_tuple_cong[OF c])
      fix x assume "?off \<le> x"
      with room have "?H + 4 * ?n + 4 \<le> x" by simp
      then show "?m' x = ?m x" by (simp add: store_uint_apply_outside)
    qed
    then show ?thesis by (simp add: stored_write_tupitem[OF c t])
  qed
  show ?thesis
    by (rule holds_records_put[OF c inv room r frame idx st k'])
qed

subsection \<open>Sequences of inserts\<close>

lemma PDS_insert_tuple_False:
  "PDS_insert_tuple c k natts t = Inr (False, k') \<Longrightarrow> k' = k"
  by (auto simp: PDS_insert_tuple_def Let_def split: if_splits)

lemma PDS_insert_tuple_format:
  "PDS_insert_tuple c k natts t = Inr (b, k') \<Longrightarrow> format k' = format k"
  by (auto simp: PDS_insert_tuple_def Let_def split: if_splits)

lemma accepted_Nil [simp]: "accepted [] ts = []"
  by (simp add: accepted_def)

lemma accepted_Cons [simp]:
  "accepted (b # bs) (t # ts) = (if b then t # accepted bs ts else accepted bs ts)"
  by (simp add: accepted_def)

lemma insert_tuples_holds:
  assumes "config_ok c"
  shows "\<forall>t\<in>set ts. tuple_ok c t \<Longrightarrow> holds_records c k rs \<Longrightarrow>
     insert_tuples c k natts ts = Inr (bs, k') \<Longrightarrow>
     length bs = length ts \<and> format k' = format k \<and>
     holds_records c k' (rs @ map tuple_view (accepted bs ts))"
proof (induction ts arbitrary: k rs bs)
  case Nil
  then show ?case by simp
next
  case (Cons t ts)
  from Cons.prems(3) obtain b k1 bs1 where
    ins: "PDS_insert_tuple c k natts t = Inr (b, k1)" and
    rest: "insert_tuples c k1 natts ts = Inr (bs1, k')" and bs: "bs = b # bs1"
    by (auto split: sum.splits prod.splits)
  from Cons.prems(1) have t: "tuple_ok c t" and ts: "\<forall>t\<in>set ts. tuple_ok c t" by simp_all
  have inv1: "holds_records c k1 (if b then rs @ [tuple_view t] else rs)"
  proof (cases b)
    case True
    with ins holds_records_insert[OF assms t Cons.prems(2)] show ?thesis by simp
  next
    case False
    with ins have "PDS_insert_tuple c k natts t = Inr (False, k1)" by simp
    then have "k1 = k" by (rule PDS_insert_tuple_False)
    with False Cons.prems(2) show ?thesis by simp
  qed
  from Cons.IH[OF ts inv1 rest] PDS_insert_tuple_format[OF ins] bs show ?case
    by (cases b) simp_all
qed

lemma fetch_holds_records:
  assumes "holds_records c k rs" "format k = KDS_FORMAT_ROW" "i < length rs"
  shows "kern_fetch_data_store c slot k i tuple
           = Inr (True, slot\<lparr>tts_content := TTS_TUPLE (rs ! i)\<rparr>, rs ! i)"
proof -
  from assms have n: "i < nitems k"
    and st: "stored_tuple c (mem k) (KERN_DATA_STORE_TUPITEM c k i) = rs ! i"
    by (auto simp: holds_records_def)
  have "tuple\<lparr>t_len := load_uint (mem k) (KERN_DATA_STORE_TUPITEM c k i) (tupitem_t_len_sz c),
              t_self := load_bytes (mem k) (KERN_DATA_STORE_TUPITEM c k i + tupitem_t_self_off c) 6,
              t_data := load_bytes (mem k) (KERN_DATA_STORE_TUPITEM c k i + tupitem_htup_off c)
                          (load_uint (mem k) (KERN_DATA_STORE_TUPITEM c k i) (tupitem_t_len_sz c))\<rparr>
        = stored_tuple c (mem k) (KERN_DATA_STORE_TUPITEM c k i)"
    by (simp add: stored_tuple_def)
  with st n assms(2) show ?thesis
    by (simp add: kern_fetch_data_store_def Let_def)
qed

lemma sample_ok:
  "config_ok sample_config" "n < 65536 \<Longrightarrow> tuple_ok sample_config (sample_tuple n b)"
  by (simp_all add: config_ok_def tuple_ok_def sample_config_def sample_tuple_def)


subsection \<open>The capacity check\<close>

lemma STROMALIGN_mono: "x \<le> y \<Longrightarrow> STROMALIGN c x \<le> STROMALIGN c y"
  by (simp add: STROMALIGN_def TYPEALIGN_mono)


lemma ROW_LENGTH_mono:
  "n \<le> n' \<Longrightarrow> d \<le> d' \<Longrightarrow>
     KDS_CALCULATE_ROW_LENGTH c nc n d \<le> KDS_CALCULATE_ROW_LENGTH c nc n' d'"
  by (simp add: KDS_CALCULATE_ROW_LENGTH_def KDS_CALCULATE_ROW_FRONTLEN_def add_mono STROMALIGN_mono)

lemma PDS_insert_tuple_accepts:
  assumes "nitems k < nrooms k" "Assert c (ncols k = natts)" "format k = KDS_FORMAT_ROW"
    and "KDS_CALCULATE_ROW_LENGTH c (ncols k) (nitems k + 1)
           (LONGALIGN (tupitem_htup_off c + t_len t) + usage k) \<le> kds_length k"
  shows "\<exists>k'. PDS_insert_tuple c k natts t = Inr (True, k')
           \<and> nitems k' = nitems k + 1
           \<and> usage k' = usage k + LONGALIGN (tupitem_htup_off c + t_len t)
           \<and> kds_length k' = kds_length k \<and> ncols k' = ncols k \<and> nrooms k' = nrooms k
           \<and> format k' = format k"
  using assms by (simp add: PDS_insert_tuple_def Let_def)







lemma sample_row_chunk_fields:
  "format sample_row_chunk = KDS_FORMAT_ROW" "nitems sample_row_chunk = 2"
  "nrooms sample_row_chunk = 2" "usage sample_row_chunk = 32" "kds_length sample_row_chunk = 4096"
  "ncols sample_row_chunk = 2"
  by (simp_all add: sample_row_chunk_def PDS_insert_tuple_def Let_def sample_layout_defs)

subsection \<open>Growing a Slot-format chunk\<close>









subsection \<open>Growing a Row- or Hash-format chunk\<close>

lemma size_t_sub_eq:
  assumes "b \<le> a" "a < 2 ^ 64"
  shows "size_t_sub a b = a - b"
proof -
  from assms have b: "b mod 2 ^ 64 = b" by simp
  from assms have "a + 2 ^ 64 - b = (a - b) + 2 ^ 64" by simp
  then have "(a + 2 ^ 64 - b) mod 2 ^ 64 = (a - b) mod 2 ^ 64" by (simp only: mod_add_self2)
  also have "\<dots> = a - b" using assms by simp
  finally show ?thesis unfolding size_t_sub_def b .
qed









lemma HASH_LENGTH_ge:
  "config_ok c \<Longrightarrow>
     KDS_CALCULATE_HEAD_LENGTH c nc + sizeof_cl_uint * n + d \<le> KDS_CALCULATE_HASH_LENGTH c nc n d"
  using STROMALIGN_ge[of c "sizeof_cl_uint * n"] STROMALIGN_ge[of c d]
  by (simp add: KDS_CALCULATE_HASH_LENGTH_def KDS_CALCULATE_HASH_FRONTLEN_def)




lemma holds_records_chunk_ok:
  assumes "holds_records c k ts" "format k \<noteq> KDS_FORMAT_HASH"
    "KDS_CALCULATE_ROW_LENGTH c (ncols k) (nitems k) (usage k) \<le> kds_length k"
  shows "chunk_ok c k"
  using assms by (simp add: holds_records_def chunk_ok_def)

lemma sample_row_chunk_holds:
  "holds_records sample_config sample_row_chunk [sample_tuple 4 1, sample_tuple 8 2]"
proof -
  let ?k0 = "sample_chunk KDS_FORMAT_ROW 4096 2"
  have "\<exists>k. insert_tuples sample_config ?k0 2 [sample_tuple 4 1, sample_tuple 8 2]
          = Inr ([True, True], k)"
    by (simp add: PDS_insert_tuple_def Let_def sample_layout_defs)
  then obtain k where ins: "insert_tuples sample_config ?k0 2 [sample_tuple 4 1, sample_tuple 8 2]
          = Inr ([True, True], k)" ..
  then have k: "sample_row_chunk = k" by (simp add: sample_row_chunk_def)
  have inv0: "holds_records sample_config ?k0 []"
    by (simp add: holds_records_def sample_chunk_def init_kernel_data_store_def)
  have ts: "\<forall>t\<in>set [sample_tuple 4 1, sample_tuple 8 2]. tuple_ok sample_config t"
    by (simp add: sample_ok)
  from insert_tuples_holds[OF sample_ok(1) ts inv0 ins] k show ?thesis
    by (simp add: tuple_view_def sample_tuple_def)
qed

lemma sample_row_chunk_ok: "chunk_ok sample_config sample_row_chunk"
  by (rule holds_records_chunk_ok[OF sample_row_chunk_holds])
     (simp_all add: sample_row_chunk_fields, simp add: sample_layout_defs)

subsection \<open>Absorbing a page\<close>

lemma length_ItemPointerSet [simp]: "length (ItemPointerSet blkno offnum) = 6"
  by (simp add: ItemPointerSet_def)

lemma insert_block_put:
  assumes c: "config_ok c" and t: "tuple_ok c t"
    and inv: "holds_records c (k\<lparr>nitems := n\<rparr>) rs"
    and nc: "ncols k = nc"
    and room: "KDS_CALCULATE_HEAD_LENGTH c nc + 4 * n + 4
                 + LONGALIGN (tupitem_htup_off c + t_len t) + usage k \<le> kds_length k"
  shows "holds_records c
           (k\<lparr>usage := usage k + LONGALIGN (tupitem_htup_off c + t_len t),
              mem := write_tupitem c
                (store_uint (mem k) (KDS_CALCULATE_HEAD_LENGTH c nc + 4 * n) 4
                   (kds_length k - (usage k + LONGALIGN (tupitem_htup_off c + t_len t))))
                (kds_length k - (usage k + LONGALIGN (tupitem_htup_off c + t_len t))) t,
              nitems := n + 1\<rparr>)
           (rs @ [tuple_view t])"
proof -
  let ?H = "KDS_CALCULATE_HEAD_LENGTH c nc"
  let ?r = "LONGALIGN (tupitem_htup_off c + t_len t)"
  let ?off = "kds_length k - (usage k + ?r)"
  let ?kk = "k\<lparr>nitems := n\<rparr>"
  let ?m0 = "store_uint (mem k) (?H + 4 * n) 4 ?off"
  let ?M = "write_tupitem c ?m0 ?off t"
  have H: "KERN_DATA_STORE_ROWINDEX c ?kk = ?H"
    by (simp add: KERN_DATA_STORE_ROWINDEX_def KERN_DATA_STORE_BODY_def nc)
  have v: "t_len (tuple_view t) = t_len t" by (simp add: tuple_view_def)
  from inv have L32: "kds_length k < 2 ^ 32" by (simp add: holds_records_def)
  have r: "tupitem_htup_off c + t_len (tuple_view t) \<le> ?r" unfolding v by (rule LONGALIGN_ge)
  have room': "KERN_DATA_STORE_ROWINDEX c ?kk + 4 * nitems ?kk + 4 + ?r + usage ?kk \<le> kds_length ?kk"
    using room by (simp add: H)
  have frame: "?M x = mem ?kk x"
    if "x < KERN_DATA_STORE_ROWINDEX c ?kk + 4 * nitems ?kk
          \<or> KERN_DATA_STORE_ROWINDEX c ?kk + 4 * nitems ?kk + 4 \<le> x"
       "x < kds_length ?kk - (usage ?kk + ?r)
          \<or> kds_length ?kk - (usage ?kk + ?r) + tupitem_htup_off c + t_len (tuple_view t) \<le> x" for x
  proof -
    from that(2) have "?M x = ?m0 x" by (simp add: v write_tupitem_outside[OF c t])
    also from that(1) have "\<dots> = mem k x" by (simp add: H store_uint_apply_outside)
    finally show ?thesis by simp
  qed
  have idx: "load_uint ?M (KERN_DATA_STORE_ROWINDEX c ?kk + 4 * nitems ?kk) 4
               = kds_length ?kk - (usage ?kk + ?r)"
  proof -
    have "load_uint ?M (?H + 4 * n) 4 = load_uint ?m0 (?H + 4 * n) 4"
    proof (rule load_uint_cong[symmetric])
      fix x assume "?H + 4 * n \<le> x" "x < ?H + 4 * n + 4"
      with room have "x < ?off" by simp
      then show "?m0 x = ?M x" by (simp add: write_tupitem_outside[OF c t])
    qed
    also have "\<dots> = ?off mod 256 ^ 4" by (rule load_store_uint_same)
    also have "\<dots> = ?off" using L32 by simp
    finally show ?thesis by (simp add: H)
  qed
  have st: "stored_tuple c ?M (kds_length ?kk - (usage ?kk + ?r)) = tuple_view t"
    using stored_write_tupitem[OF c t, of ?m0 ?off] by simp
  have k': "k\<lparr>usage := usage k + ?r, mem := ?M, nitems := n + 1\<rparr>
      = ?kk\<lparr>usage := usage ?kk + ?r, nitems := nitems ?kk + 1, mem := ?M\<rparr>"
    by simp
  show ?thesis
    unfolding k'
    by (rule holds_records_put[OF c inv room' r frame idx st refl])
qed

lemma insert_block_loop_holds:
  assumes c: "config_ok c"
  shows "holds_records c (k\<lparr>nitems := n0 + ntup\<rparr>) rs \<Longrightarrow> ncols k = nc \<Longrightarrow>
     \<forall>t\<in>set (visible_tuples blk av lineoff items). tuple_ok c t \<Longrightarrow>
     KDS_CALCULATE_HEAD_LENGTH c nc + 4 * (n0 + ntup + length items) + usage k
       + sum_list (map (\<lambda>t. LONGALIGN (tupitem_htup_off c + t_len t))
                     (visible_tuples blk av lineoff items)) \<le> kds_length k \<Longrightarrow>
     insert_block_loop c blk av (KDS_CALCULATE_HEAD_LENGTH c nc + sizeof_cl_uint * n0) lineoff items
       (k, ntup) = (k', ntup') \<Longrightarrow>
     ntup' = ntup + length (visible_tuples blk av lineoff items) \<and>
     usage k' = usage k + sum_list (map (\<lambda>t. LONGALIGN (tupitem_htup_off c + t_len t))
                                     (visible_tuples blk av lineoff items)) \<and>
     kds_length k' = kds_length k \<and> ncols k' = ncols k \<and> nitems k' = nitems k \<and>
     nrooms k' = nrooms k \<and> format k' = format k \<and> nslots k' = nslots k \<and>
     holds_records c (k'\<lparr>nitems := n0 + ntup'\<rparr>)
       (rs @ map tuple_view (visible_tuples blk av lineoff items))"
proof (induction items arbitrary: k ntup lineoff rs)
  case Nil
  then show ?case by simp
next
  case (Cons lpp rest)
  let ?H = "KDS_CALCULATE_HEAD_LENGTH c nc"
  show ?case
  proof (cases "lp_normal lpp \<and> (av \<or> item_visible lpp)")
    case False
    with Cons.prems(5)
    have loop: "insert_block_loop c blk av (?H + sizeof_cl_uint * n0) (lineoff + 1) rest (k, ntup)
                  = (k', ntup')"
      by (auto simp: Let_def split: if_splits)
    from False have vt: "visible_tuples blk av lineoff (lpp # rest) = visible_tuples blk av (lineoff + 1) rest"
      by simp
    from Cons.prems(3) have tok: "\<forall>t\<in>set (visible_tuples blk av (lineoff + 1) rest). tuple_ok c t"
      unfolding vt .
    from Cons.prems(4) have bud: "?H + 4 * (n0 + ntup + length rest) + usage k
       + sum_list (map (\<lambda>t. LONGALIGN (tupitem_htup_off c + t_len t))
                     (visible_tuples blk av (lineoff + 1) rest)) \<le> kds_length k"
      unfolding vt by simp
    from Cons.IH[OF Cons.prems(1,2) tok bud loop] show ?thesis unfolding vt .
  next
    case True
    let ?t = "\<lparr>t_len = lp_len lpp, t_self = ItemPointerSet blk lineoff, t_data = item_data lpp\<rparr>"
    let ?r = "LONGALIGN (tupitem_htup_off c + t_len ?t)"
    let ?off = "kds_length k - (usage k + ?r)"
    let ?M = "write_tupitem c (store_uint (mem k) (?H + 4 * (n0 + ntup)) 4 ?off) ?off ?t"
    let ?k1 = "k\<lparr>usage := usage k + ?r, mem := ?M\<rparr>"
    from True have vt: "visible_tuples blk av lineoff (lpp # rest)
        = ?t # visible_tuples blk av (lineoff + 1) rest"
      by simp
    from True Cons.prems(5)
    have loop: "insert_block_loop c blk av (?H + sizeof_cl_uint * n0) (lineoff + 1) rest (?k1, ntup + 1)
                  = (k', ntup')"
      by (auto simp: Let_def write_tupitem_def sizeof_cl_uint_def add_mult_distrib2 add.assoc
            split: if_splits)
    from Cons.prems(3) have t: "tuple_ok c ?t"
      and tok: "\<forall>t\<in>set (visible_tuples blk av (lineoff + 1) rest). tuple_ok c t"
      unfolding vt by simp_all
    from Cons.prems(4) have room: "?H + 4 * (n0 + ntup) + 4 + ?r + usage k \<le> kds_length k"
      unfolding vt by simp
    from Cons.prems(4) have bud: "?H + 4 * (n0 + (ntup + 1) + length rest) + usage ?k1
       + sum_list (map (\<lambda>t. LONGALIGN (tupitem_htup_off c + t_len t))
                     (visible_tuples blk av (lineoff + 1) rest)) \<le> kds_length ?k1"
      unfolding vt by simp
    from insert_block_put[OF c t Cons.prems(1) Cons.prems(2) room]
    have inv1: "holds_records c (?k1\<lparr>nitems := n0 + (ntup + 1)\<rparr>) (rs @ [tuple_view ?t])"
      by (simp add: add.assoc)
    have nc1: "ncols ?k1 = nc" using Cons.prems(2) by simp
    from Cons.IH[OF inv1 nc1 tok bud loop] show ?thesis
      unfolding vt by (elim conjE) (simp add: add.assoc)
  qed
qed

lemma TYPEALIGN_add_multiple:
  assumes "a dvd x" "0 < a"
  shows "TYPEALIGN a (x + len) = x + TYPEALIGN a len"
proof -
  from assms obtain q where x: "x = q * a" by (auto simp: dvd_def)
  have "(len + (a - 1) + q * a) div a = q + (len + (a - 1)) div a"
    using assms(2) by (subst div_mult_self1) simp_all
  moreover have "x + len + (a - 1) = len + (a - 1) + q * a" by (simp add: x)
  ultimately have "(x + len + (a - 1)) div a = q + (len + (a - 1)) div a" by (simp only:)
  then show ?thesis
    unfolding TYPEALIGN_def by (simp add: x add_mult_distrib)
qed

lemma length_visible_tuples: "length (visible_tuples blk av lineoff items) \<le> length items"
  by (induction items arbitrary: lineoff) (auto simp: le_SucI)

lemma visible_tuples_ok:
  assumes "\<forall>lpp \<in> set items.
        lp_normal lpp \<longrightarrow> lp_len lpp \<le> length (item_data lpp) \<and> lp_len lpp < 256 ^ tupitem_t_len_sz c"
  shows "\<forall>t\<in>set (visible_tuples blk av lineoff items). tuple_ok c t"
  using assms by (induction items arbitrary: lineoff) (auto simp: tuple_ok_def)

lemma visible_tuples_consume:
  assumes "8 dvd tupitem_htup_off c"
  shows "sum_list (map (\<lambda>t. LONGALIGN (tupitem_htup_off c + t_len t)) (visible_tuples blk av lineoff items))
           \<le> tupitem_htup_off c * length items
               + sum_list (map (\<lambda>lpp. MAXALIGN (lp_len lpp)) (filter lp_normal items))"
proof (induction items arbitrary: lineoff)
  case Nil
  then show ?case by simp
next
  case (Cons lpp rest)
  have al: "LONGALIGN (tupitem_htup_off c + lp_len lpp) = tupitem_htup_off c + MAXALIGN (lp_len lpp)"
    using TYPEALIGN_add_multiple[OF assms, of "lp_len lpp"]
    by (simp add: LONGALIGN_def MAXALIGN_def)
  from Cons.IH[of "lineoff + 1"] show ?case
    by (auto simp: al)
qed

lemma PDS_insert_block_full:
  assumes "format k = KDS_FORMAT_ROW" "nslots k = 0"
    "kds_length k < KDS_CALCULATE_HASH_LENGTH c (ncols k) (nitems k + length (page_items page))
                      (tupitem_htup_off c * length (page_items page) + BLCKSZ c + usage k)"
  shows "PDS_insert_block c k page blknum tdr = Inr (- 1, k)"
  using assms by (simp add: PDS_insert_block_def Assert_def Let_def)

lemma PDS_insert_block_absorbs:
  assumes c: "config_ok c" and a8: "8 dvd tupitem_htup_off c"
    and fmt: "format k = KDS_FORMAT_ROW" and ns: "nslots k = 0" and nr: "nrooms k = INT_MAX"
    and inv: "holds_records c k ts" and pg: "page_ok c page"
    and fit: "KDS_CALCULATE_HASH_LENGTH c (ncols k) (nitems k + length (page_items page))
                (tupitem_htup_off c * length (page_items page) + BLCKSZ c + usage k) \<le> kds_length k"
    and vis: "vis = visible_tuples blknum (pd_all_visible page \<and> \<not> tdr) FirstOffsetNumber (page_items page)"
  shows "\<exists>k'. PDS_insert_block c k page blknum tdr = Inr (int (length vis), k')
           \<and> nitems k' = nitems k + length vis
           \<and> usage k' = usage k + sum_list (map (\<lambda>t. LONGALIGN (tupitem_htup_off c + t_len t)) vis)
           \<and> kds_length k' = kds_length k \<and> format k' = KDS_FORMAT_ROW
           \<and> holds_records c k' (ts @ map tuple_view vis)"
proof -
  let ?items = "page_items page" and ?av = "pd_all_visible page \<and> \<not> tdr"
  let ?H = "KDS_CALCULATE_HEAD_LENGTH c (ncols k)"
  let ?cons = "sum_list (map (\<lambda>t. LONGALIGN (tupitem_htup_off c + t_len t)) vis)"
  obtain k1 ntup where loop:
    "insert_block_loop c blknum ?av (?H + sizeof_cl_uint * nitems k) FirstOffsetNumber ?items (k, 0)
       = (k1, ntup)"
    by (cases "insert_block_loop c blknum ?av (?H + sizeof_cl_uint * nitems k) FirstOffsetNumber
                 ?items (k, 0)")
  from pg have lines: "length ?items \<le> MaxHeapTuplesPerPage c"
    and its: "\<forall>lpp \<in> set ?items.
        lp_normal lpp \<longrightarrow> lp_len lpp \<le> length (item_data lpp) \<and> lp_len lpp < 256 ^ tupitem_t_len_sz c"
    and sz: "sum_list (map (\<lambda>lpp. MAXALIGN (lp_len lpp)) (filter lp_normal ?items)) \<le> BLCKSZ c"
    by (simp_all add: page_ok_def)
  have tok: "\<forall>t\<in>set (visible_tuples blknum ?av FirstOffsetNumber ?items). tuple_ok c t"
    using its by (rule visible_tuples_ok)
  from visible_tuples_consume[OF a8, of blknum ?av FirstOffsetNumber ?items] sz
  have cons: "?cons \<le> tupitem_htup_off c * length ?items + BLCKSZ c"
    unfolding vis by simp
  from HASH_LENGTH_ge[OF c, of "ncols k" "nitems k + length ?items"
      "tupitem_htup_off c * length ?items + BLCKSZ c + usage k"] fit
  have big: "?H + 4 * (nitems k + length ?items)
      + (tupitem_htup_off c * length ?items + BLCKSZ c + usage k) \<le> kds_length k"
    by (simp add: sizeof_cl_uint_def)
  with cons have bud: "?H + 4 * (nitems k + 0 + length ?items) + usage k
       + sum_list (map (\<lambda>t. LONGALIGN (tupitem_htup_off c + t_len t))
                     (visible_tuples blknum ?av FirstOffsetNumber ?items)) \<le> kds_length k"
    unfolding vis by simp
  have inv0: "holds_records c (k\<lparr>nitems := nitems k + 0\<rparr>) ts" using inv by simp
  from insert_block_loop_holds[OF c inv0 refl tok bud loop]
  have res: "ntup = length vis" "usage k1 = usage k + ?cons" "kds_length k1 = kds_length k"
    "nitems k1 = nitems k" "nrooms k1 = nrooms k" "format k1 = format k"
    and inv1: "holds_records c (k1\<lparr>nitems := nitems k + ntup\<rparr>) (ts @ map tuple_view vis)"
    unfolding vis by (elim conjE, simp)+
  have nt: "ntup \<le> MaxHeapTuplesPerPage c"
    using length_visible_tuples[of blknum ?av FirstOffsetNumber ?items] lines res(1) vis by simp
  from inv have "kds_length k < 2 ^ 32" by (simp add: holds_records_def)
  with big have "nitems k + length ?items < INT_MAX" by (simp add: INT_MAX_def)
  with length_visible_tuples[of blknum ?av FirstOffsetNumber ?items] res(1) vis
  have rooms: "nitems k1 + ntup \<le> nrooms k1" by (simp add: res nr)
  have "PDS_insert_block c k page blknum tdr
          = Inr (int ntup, k1\<lparr>nitems := nitems k1 + ntup\<rparr>)"
    using fmt ns fit loop nt rooms
    by (simp add: PDS_insert_block_def Assert_def Let_def KERN_DATA_STORE_ROWINDEX_def
          KERN_DATA_STORE_BODY_def)
  with res inv1 fmt show ?thesis by simp
qed

lemma sample_page_ok: "page_ok sample_config sample_page"
  by (simp add: page_ok_def sample_page_def MaxHeapTuplesPerPage_def sample_layout_defs)

lemma sample_page_visible:
  "visible_tuples 5 (pd_all_visible sample_page) FirstOffsetNumber (page_items sample_page)
     = [\<lparr>t_len = 4, t_self = ItemPointerSet 5 1, t_data = [1, 2, 3, 4]\<rparr>]"
  by (simp add: sample_page_def FirstOffsetNumber_def)

lemma sample_chunk_holds: "len < 2 ^ 32 \<Longrightarrow> holds_records sample_config (sample_chunk fmt len n) []"
  by (simp add: holds_records_def sample_chunk_def init_kernel_data_store_def)

subsection \<open>Shrinking a chunk\<close>

lemma shrink_no_op:
  assumes "format k = KDS_FORMAT_ROW \<or> format k = KDS_FORMAT_HASH"
    and "LEN = (if format k = KDS_FORMAT_HASH
               then KDS_CALCULATE_HASH_LENGTH c (ncols k) (nitems k) (usage k)
               else KDS_CALCULATE_ROW_LENGTH c (ncols k) (nitems k) (usage k))"
    and "LEN \<le> kds_length k" "kds_length k < 2 ^ 32"
    and "sh = STROMALIGN_DOWN c (kds_length k - LEN)"
    and "sh < BLCKSZ c \<or> sh < sizeof_Datum * nitems k"
  shows "PDS_shrink_size c k = Inr k"
proof -
  from assms(3,4) have "size_t_sub (kds_length k) LEN = kds_length k - LEN"
    by (intro size_t_sub_eq) simp_all
  with assms show ?thesis
    by (auto simp: PDS_shrink_size_def Let_def)
qed

lemma sample_config_fields:
  "tupitem_htup_off sample_config = 8" "hashitem_t_off sample_config = 12"
  "tupitem_t_len_sz sample_config = 2" "BLCKSZ sample_config = 8192"
  "KDS_NSLOTS sample_config 2 = 320" "USE_ASSERT_CHECKING sample_config = False"
  by (simp_all add: sample_config_def)

lemma sample_slack_chunk_fields:
  "format sample_slack_chunk = KDS_FORMAT_ROW" "nitems sample_slack_chunk = 2"
  "usage sample_slack_chunk = 32" "kds_length sample_slack_chunk = 16384"
  "ncols sample_slack_chunk = 2" "nslots sample_slack_chunk = 0"
  by (simp_all add: sample_slack_chunk_def PDS_insert_tuple_def Let_def sample_layout_defs)

lemma sample_slack_chunk_holds:
  "holds_records sample_config sample_slack_chunk [sample_tuple 4 1, sample_tuple 8 2]"
proof -
  let ?k0 = "sample_chunk KDS_FORMAT_ROW 16384 2"
  have "\<exists>k. insert_tuples sample_config ?k0 2 [sample_tuple 4 1, sample_tuple 8 2]
          = Inr ([True, True], k)"
    by (simp add: PDS_insert_tuple_def Let_def sample_layout_defs)
  then obtain k where ins: "insert_tuples sample_config ?k0 2 [sample_tuple 4 1, sample_tuple 8 2]
          = Inr ([True, True], k)" ..
  then have k: "sample_slack_chunk = k" by (simp add: sample_slack_chunk_def)
  have inv0: "holds_records sample_config ?k0 []"
    by (simp add: holds_records_def sample_chunk_def init_kernel_data_store_def)
  have ts: "\<forall>t\<in>set [sample_tuple 4 1, sample_tuple 8 2]. tuple_ok sample_config t"
    by (simp add: sample_ok)
  from insert_tuples_holds[OF sample_ok(1) ts inv0 ins] k show ?thesis
    by (simp add: tuple_view_def sample_tuple_def)
qed

lemma sample_slack_chunk_ok: "chunk_ok sample_config sample_slack_chunk"
  by (rule holds_records_chunk_ok[OF sample_slack_chunk_holds])
     (simp_all add: sample_slack_chunk_fields, simp add: sample_layout_defs)

lemma insert_tuples_replicate:
  assumes a: "Assert c (ncols k = natts)" and f: "format k = KDS_FORMAT_ROW"
  shows "nitems k + n \<le> nrooms k \<Longrightarrow>
     KDS_CALCULATE_ROW_LENGTH c (ncols k) (nitems k + n)
        (usage k + n * LONGALIGN (tupitem_htup_off c + t_len t)) \<le> kds_length k \<Longrightarrow>
     \<exists>k'. insert_tuples c k natts (replicate n t) = Inr (replicate n True, k')
        \<and> nitems k' = nitems k + n
        \<and> usage k' = usage k + n * LONGALIGN (tupitem_htup_off c + t_len t)
        \<and> kds_length k' = kds_length k \<and> ncols k' = ncols k \<and> format k' = format k"
  using a f
proof (induction n arbitrary: k)
  case 0
  then show ?case by simp
next
  case (Suc n)
  let ?r = "LONGALIGN (tupitem_htup_off c + t_len t)"
  have "KDS_CALCULATE_ROW_LENGTH c (ncols k) (nitems k + 1) (?r + usage k)
          \<le> KDS_CALCULATE_ROW_LENGTH c (ncols k) (nitems k + Suc n) (usage k + Suc n * ?r)"
    by (rule ROW_LENGTH_mono) simp_all
  with Suc.prems(2) have fit: "KDS_CALCULATE_ROW_LENGTH c (ncols k) (nitems k + 1) (?r + usage k)
          \<le> kds_length k" by simp
  from Suc.prems(1) have "nitems k < nrooms k" by simp
  from PDS_insert_tuple_accepts[OF this Suc.prems(3) Suc.prems(4) fit]
  obtain k1 where s1: "PDS_insert_tuple c k natts t = Inr (True, k1)"
    and k1: "nitems k1 = nitems k + 1" "usage k1 = usage k + ?r" "kds_length k1 = kds_length k"
      "ncols k1 = ncols k" "nrooms k1 = nrooms k" "format k1 = format k"
    by blast
  from Suc.prems k1 have p: "nitems k1 + n \<le> nrooms k1"
    "KDS_CALCULATE_ROW_LENGTH c (ncols k1) (nitems k1 + n) (usage k1 + n * ?r) \<le> kds_length k1"
    "Assert c (ncols k1 = natts)" "format k1 = KDS_FORMAT_ROW"
    by (simp_all add: add.assoc add.commute add.left_commute)
  from Suc.IH[OF p] obtain k' where
    r: "insert_tuples c k1 natts (replicate n t) = Inr (replicate n True, k')"
      "nitems k' = nitems k1 + n" "usage k' = usage k1 + n * ?r" "kds_length k' = kds_length k1"
      "ncols k' = ncols k1" "format k' = format k1"
    by blast
  with s1 k1 show ?case by simp
qed

lemma sample_packed_chunk_fields:
  "format sample_packed_chunk = KDS_FORMAT_ROW \<and> nitems sample_packed_chunk = 1100
   \<and> usage sample_packed_chunk = 17600 \<and> kds_length sample_packed_chunk = 30304
   \<and> ncols sample_packed_chunk = 2
   \<and> holds_records sample_config sample_packed_chunk (replicate 1100 (sample_tuple 4 1))"
proof -
  let ?k0 = "sample_chunk KDS_FORMAT_ROW 30304 INT_MAX"
  have k0: "nitems ?k0 = 0" "usage ?k0 = 0" "kds_length ?k0 = 30304" "ncols ?k0 = 2"
    "nrooms ?k0 = INT_MAX" "format ?k0 = KDS_FORMAT_ROW"
    by (simp_all add: sample_chunk_def init_kernel_data_store_def)
  have a: "Assert sample_config (ncols ?k0 = 2)" by (simp add: k0 Assert_def)
  have r: "LONGALIGN (tupitem_htup_off sample_config + t_len (sample_tuple 4 1)) = 16"
    by (simp add: sample_layout_defs)
  have 1: "nitems ?k0 + 1100 \<le> nrooms ?k0" unfolding k0 by (simp add: INT_MAX_def)
  have 2: "KDS_CALCULATE_ROW_LENGTH sample_config (ncols ?k0) (nitems ?k0 + 1100)
        (usage ?k0 + 1100 * LONGALIGN (tupitem_htup_off sample_config + t_len (sample_tuple 4 1)))
          \<le> kds_length ?k0"
    unfolding r k0 by (simp add: sample_layout_defs)
  from insert_tuples_replicate[OF a k0(6) 1 2]
  obtain k' where ins: "insert_tuples sample_config ?k0 2 (replicate 1100 (sample_tuple 4 1))
        = Inr (replicate 1100 True, k')"
    and k': "nitems k' = nitems ?k0 + 1100"
      "usage k' = usage ?k0 + 1100 * LONGALIGN (tupitem_htup_off sample_config + t_len (sample_tuple 4 1))"
      "kds_length k' = kds_length ?k0" "ncols k' = ncols ?k0" "format k' = format ?k0"
    by blast
  from ins have k: "sample_packed_chunk = k'" by (simp add: sample_packed_chunk_def)
  have inv0: "holds_records sample_config ?k0 []"
    by (simp add: holds_records_def sample_chunk_def init_kernel_data_store_def)
  have ts: "\<forall>t\<in>set (replicate 1100 (sample_tuple 4 1)). tuple_ok sample_config t"
    by (simp add: sample_ok)
  have acc: "accepted (replicate n True) (replicate n t) = replicate n t" for n and t :: HeapTupleData
    by (induction n) (simp_all add: accepted_def)
  from insert_tuples_holds[OF sample_ok(1) ts inv0 ins]
  have "holds_records sample_config k' (map tuple_view (replicate 1100 (sample_tuple 4 1)))"
    by (simp add: acc)
  then have h: "holds_records sample_config k' (replicate 1100 (sample_tuple 4 1))"
    by (simp add: tuple_view_def sample_tuple_def)
  from k' h show ?thesis unfolding k r k0 by simp
qed

lemma FRONTLEN_pos:
  assumes "config_ok c" "0 < kds_colmeta_off c nc"
  shows "0 < KDS_CALCULATE_ROW_FRONTLEN c nc n" "0 < KDS_CALCULATE_HASH_FRONTLEN c nc n"
  using assms STROMALIGN_ge[of c "kds_colmeta_off c nc"]
  by (simp_all add: KDS_CALCULATE_ROW_FRONTLEN_def KDS_CALCULATE_HASH_FRONTLEN_def
        KDS_CALCULATE_HEAD_LENGTH_def)

lemma shrink_overrun:
  assumes c: "config_ok c" and hd: "0 < kds_colmeta_off c (ncols k)"
    and fmt: "format k = KDS_FORMAT_ROW \<or> format k = KDS_FORMAT_HASH"
    and LEN: "LEN = (if format k = KDS_FORMAT_HASH
               then KDS_CALCULATE_HASH_LENGTH c (ncols k) (nitems k) (usage k)
               else KDS_CALCULATE_ROW_LENGTH c (ncols k) (nitems k) (usage k))"
    and le: "LEN \<le> kds_length k" and L: "kds_length k < 2 ^ 32"
    and sh: "sh = STROMALIGN_DOWN c (kds_length k - LEN)"
    and big: "\<not> (sh < BLCKSZ c \<or> sh < sizeof_Datum * nitems k)"
  shows "PDS_shrink_size c k = Inl BufferOverrun"
proof -
  define FRONT where "FRONT = (if format k = KDS_FORMAT_HASH
               then KDS_CALCULATE_HASH_FRONTLEN c (ncols k) (nitems k)
               else KDS_CALCULATE_ROW_FRONTLEN c (ncols k) (nitems k))"
  from FRONTLEN_pos[OF c hd] have F: "0 < FRONT" by (simp add: FRONT_def)
  have "FRONT \<le> LEN"
    by (simp add: LEN FRONT_def KDS_CALCULATE_HASH_LENGTH_def KDS_CALCULATE_ROW_LENGTH_def)
  with F have Lp: "0 < LEN" by simp
  from le L have s0: "size_t_sub (kds_length k) LEN = kds_length k - LEN"
    by (intro size_t_sub_eq) simp_all
  have "sh \<le> kds_length k - LEN" unfolding sh STROMALIGN_DOWN_def by (rule TYPEALIGN_DOWN_le)
  with Lp le have shL: "sh < kds_length k" by linarith
  with L have s1: "size_t_sub (kds_length k) sh = kds_length k - sh"
    by (intro size_t_sub_eq) simp_all
  from shL F have out: "\<not> memmove_in_bounds (kds_length k) FRONT (FRONT + sh) (kds_length k - sh)"
    by (simp add: memmove_in_bounds_def)
  show ?thesis
  proof (cases "format k = KDS_FORMAT_HASH")
    case True
    with LEN FRONT_def s0 s1 sh big out show ?thesis
      by (simp add: PDS_shrink_size_def Let_def)
  next
    case False
    with fmt have "format k = KDS_FORMAT_ROW" by simp
    with LEN FRONT_def s0 s1 sh big out show ?thesis
      by (simp add: PDS_shrink_size_def Let_def)
  qed
qed

section \<open>Reference counting is balanced\<close>

text \<open>
  Claim C3, as amended. A store made by \<^verbatim>\<open>PDS_create_row\<close> has reference count 1. From
  there, for every \<open>K\<close> below \<open>2\<^sup>3\<^sup>1 - 1\<close>, so that the count stays within its 32-bit
  signed field, \<open>K\<close> calls of \<^verbatim>\<open>PDS_retain\<close> followed by up to \<open>K + 1\<close> calls of
  \<^verbatim>\<open>PDS_release\<close> all return; whenever a sequence of retain and release calls on the
  store with fewer than \<open>2\<^sup>3\<^sup>1 - 1\<close> retains returns, the releases are at most one more
  than the retains, the buffer has been handed to \<^verbatim>\<open>dmaBufferFree\<close> exactly once if they
  are one more, and it is alive and was never freed if they are fewer. \<^verbatim>\<open>PDS_retain\<close>
  returns the reference it was given, and with assertion checking both functions trap on
  a count that is not positive.
\<close>

theorem PDS_retain_release_balanced:
  assumes cr: "PDS_create_row c h0 natts len junk = (h, pds)"
  shows "(\<exists>obj. bufs h pds = Some obj \<and> refcnt obj = 1)
    \<and> (\<forall>K j. K < 2 ^ 31 - 1 \<longrightarrow> j \<le> K + 1 \<longrightarrow>
          (\<exists>h'. run_ref_ops c h pds (replicate K Retain @ replicate j Release) = Inr h'))
    \<and> (\<forall>ops h'. count_list ops Retain < 2 ^ 31 - 1 \<longrightarrow> run_ref_ops c h pds ops = Inr h' \<longrightarrow>
          count_list ops Release \<le> count_list ops Retain + 1 \<and>
          (if count_list ops Release = count_list ops Retain + 1
           then bufs h' pds = None \<and> free_log h' = free_log h @ [pds]
           else (\<exists>obj. bufs h' pds = Some obj \<and>
                   refcnt obj = 1 + int (count_list ops Retain) - int (count_list ops Release))
                \<and> free_log h' = free_log h))
    \<and> (\<forall>h1 p1. PDS_retain c h pds = Inr (h1, p1) \<longrightarrow> p1 = pds)
    \<and> (\<forall>h1 obj. USE_ASSERT_CHECKING c \<and> bufs h1 pds = Some obj \<and> refcnt obj \<le> 0 \<longrightarrow>
          PDS_retain c h1 pds = Inl AssertFailure \<and> PDS_release c h1 pds = Inl AssertFailure)"
proof -
  let ?obj = "junk\<lparr>refcnt := 1,
        kds := init_kernel_data_store (kds junk) natts (STROMALIGN_DOWN c len) KDS_FORMAT_ROW INT_MAX\<rparr>"
  from PDS_create_row_obj[OF cr] have obj: "bufs h pds = Some ?obj" by blast
  have one: "0 < refcnt ?obj" "refcnt ?obj < 2 ^ 31" by simp_all
  have A: "\<exists>obj. bufs h pds = Some obj \<and> refcnt obj = 1" using obj by simp
  have B: "\<exists>h'. run_ref_ops c h pds (replicate K Retain @ replicate j Release) = Inr h'"
    if K: "K < 2 ^ 31 - 1" and j: "j \<le> K + 1" for K j
  proof -
    from K have up: "1 + int K < 2 ^ 31" by simp
    then have "refcnt ?obj + int K \<le> 2 ^ 31" by simp
    from run_retains_ok[OF obj one this, of c] obtain h1
      where r1: "run_ref_ops c h pds (replicate K Retain) = Inr h1"
        and b: "bufs h1 pds = Some (?obj\<lparr>refcnt := cl_int (refcnt ?obj + int K)\<rparr>)" by blast
    from up have "cl_int (1 + int K) = 1 + int K" by (intro cl_int_id) simp_all
    with b have b1: "bufs h1 pds = Some (?obj\<lparr>refcnt := 1 + int K\<rparr>)" by simp
    have "int j \<le> refcnt (?obj\<lparr>refcnt := 1 + int K\<rparr>)"
      "refcnt (?obj\<lparr>refcnt := 1 + int K\<rparr>) < 2 ^ 31" using j up by simp_all
    from run_releases_ok[OF b1 this] obtain h2
      where "run_ref_ops c h1 pds (replicate j Release) = Inr h2" by auto
    with r1 show ?thesis by (simp add: run_ref_ops_append)
  qed
  have C: "count_list ops Release \<le> count_list ops Retain + 1 \<and>
          (if count_list ops Release = count_list ops Retain + 1
           then bufs h' pds = None \<and> free_log h' = free_log h @ [pds]
           else (\<exists>obj. bufs h' pds = Some obj \<and>
                   refcnt obj = 1 + int (count_list ops Retain) - int (count_list ops Release))
                \<and> free_log h' = free_log h)"
    if n: "count_list ops Retain < 2 ^ 31 - 1" and run: "run_ref_ops c h pds ops = Inr h'" for ops h'
  proof -
    from n have "refcnt ?obj + int (count_list ops Retain) < 2 ^ 31" by simp
    from run_ref_ops_counts[OF obj one(1) this run] show ?thesis by (auto split: if_splits)
  qed
  have D: "p1 = pds" if "PDS_retain c h pds = Inr (h1, p1)" for h1 p1
    using that by (auto simp: PDS_retain_def split: option.splits if_splits)
  have E: "PDS_retain c h1 pds = Inl AssertFailure \<and> PDS_release c h1 pds = Inl AssertFailure"
    if "USE_ASSERT_CHECKING c \<and> bufs h1 pds = Some obj \<and> refcnt obj \<le> 0" for h1 obj
    using that by (simp add: PDS_retain_def PDS_release_def Assert_def)
  from A B C D E show ?thesis by blast
qed

theorem PDS_retain_release_balanced_witness:
  "\<exists>h pds. PDS_create_row sample_config empty_heap 2 4096 zero_pds = (h, pds)
     \<and> (\<exists>h'. run_ref_ops sample_config h pds [Retain, Release, Release] = Inr h'
           \<and> bufs h' pds = None \<and> free_log h' = [pds])
     \<and> (\<exists>h'. run_ref_ops sample_config h pds [Retain, Release] = Inr h'
           \<and> bufs h' pds \<noteq> None \<and> free_log h' = [])"
proof -
  obtain h pds where cr: "PDS_create_row sample_config empty_heap 2 4096 zero_pds = (h, pds)"
    by (cases "PDS_create_row sample_config empty_heap 2 4096 zero_pds")
  have fl: "free_log h = []"
    using PDS_create_row_obj[OF cr] by (simp add: empty_heap_def)
  note T = PDS_retain_release_balanced[OF cr]
  note T2 = T[THEN conjunct2, THEN conjunct1, rule_format]
  note T3 = T[THEN conjunct2, THEN conjunct2, THEN conjunct1, rule_format]
  have k1: "(1::nat) < 2 ^ 31 - 1" by simp
  have c2: "count_list [Retain, Release, Release] Retain < 2 ^ 31 - 1"
    "count_list [Retain, Release] Retain < 2 ^ 31 - 1" by simp_all
  from T2[OF k1, of 2] obtain h2 where r2: "run_ref_ops sample_config h pds [Retain, Release, Release] = Inr h2"
    by (auto simp: numeral_2_eq_2)
  from T3[OF c2(1) r2] have p2: "bufs h2 pds = None \<and> free_log h2 = [pds]"
    by (simp add: fl)
  from T2[OF k1, of 1] obtain h3 where r3: "run_ref_ops sample_config h pds [Retain, Release] = Inr h3"
    by auto
  from T3[OF c2(2) r3] have p3: "bufs h3 pds \<noteq> None \<and> free_log h3 = []"
    by (auto simp: fl)
  from cr r2 p2 r3 p3 show ?thesis by blast
qed

text \<open>Claim C3 as stated fails for \<open>K = 2\<^sup>3\<^sup>1 - 1\<close> in a build with assertion checking: the
  last retain takes the count from \<open>2\<^sup>3\<^sup>1 - 1\<close> beyond the range of its field, where it
  reads as negative, and the first release traps on its assertion instead of counting
  down; the buffer is never freed.\<close>

theorem PDS_retain_release_balanced_counterexample:
  "run_ref_ops checking_config
     (fst (PDS_create_row checking_config empty_heap 2 4096 zero_pds))
     (snd (PDS_create_row checking_config empty_heap 2 4096 zero_pds))
     (replicate 2147483647 Retain @ replicate 2147483648 Release) = Inl AssertFailure"
proof -
  obtain h pds where cr: "PDS_create_row checking_config empty_heap 2 4096 zero_pds = (h, pds)"
    by (cases "PDS_create_row checking_config empty_heap 2 4096 zero_pds")
  let ?obj = "zero_pds\<lparr>refcnt := 1,
        kds := init_kernel_data_store (kds zero_pds) 2 (STROMALIGN_DOWN checking_config 4096)
                 KDS_FORMAT_ROW INT_MAX\<rparr>"
  from PDS_create_row_obj[OF cr] have obj: "bufs h pds = Some ?obj" by blast
  have "0 < refcnt ?obj" "refcnt ?obj < 2 ^ 31" "refcnt ?obj + int 2147483647 \<le> 2 ^ 31" by simp_all
  from run_retains_ok[OF obj this, of checking_config] obtain h1
    where r1: "run_ref_ops checking_config h pds (replicate 2147483647 Retain) = Inr h1"
      and b: "bufs h1 pds = Some (?obj\<lparr>refcnt := cl_int (refcnt ?obj + int 2147483647)\<rparr>)" by blast
  have neg: "cl_int (refcnt ?obj + int 2147483647) = - 2147483648" by (simp add: cl_int_def)
  have rel: "PDS_release checking_config h1 pds = Inl AssertFailure"
    using b unfolding neg by (simp add: PDS_release_def Assert_def checking_config_def)
  have "replicate 2147483648 Release = Release # replicate 2147483647 Release"
    by (simp add: replicate_Suc[symmetric] del: replicate_Suc)
  with r1 rel cr show ?thesis by (simp add: run_ref_ops_append)
qed

section \<open>Disposition of a task in the completion callback\<close>

text \<open>
  Claim C9, as amended. The callback leaves the task and the queues as they are when the
  status is \<^verbatim>\<open>CUDA_ERROR_INVALID_CONTEXT\<close> or no transaction is in progress. Otherwise:
  when the run succeeded, CPU fallback is enabled and the kernel reported
  \<^verbatim>\<open>StromError_CpuReCheck\<close> or \<^verbatim>\<open>StromError_DataStoreNoSpace\<close>, the error code is
  cleared and the task is marked for CPU fallback; when the run succeeded otherwise, the
  kernel's error is recorded on the task as it is; when the run failed, the status is
  recorded as the error code, with the CUDA runtime as its origin. A task whose recorded
  code is not \<^verbatim>\<open>StromError_Success\<close> is pushed on the front of the completed queue, any
  other on the back.
\<close>

theorem pgstrom_respond_gpuscan_disposition:
  "(status = CUDA_ERROR_INVALID_CONTEXT \<or> \<not> in_transaction \<longrightarrow>
      pgstrom_respond_gpuscan c fb in_transaction status tid g s = (g, s))
   \<and> (status \<noteq> CUDA_ERROR_INVALID_CONTEXT \<and> in_transaction \<longrightarrow>
        (case pgstrom_respond_gpuscan c fb in_transaction status tid g s of (g', s') \<Rightarrow>
           (status = CUDA_SUCCESS \<and> fb \<and>
              (errcode (kern_kerror g) = StromError_CpuReCheck c \<or>
               errcode (kern_kerror g) = StromError_DataStoreNoSpace c) \<longrightarrow>
                task_kerror g' = (kern_kerror g)\<lparr>errcode := StromError_Success c\<rparr> \<and>
                task_cpu_fallback g')
         \<and> (status = CUDA_SUCCESS \<and>
              \<not> (fb \<and> (errcode (kern_kerror g) = StromError_CpuReCheck c \<or>
                        errcode (kern_kerror g) = StromError_DataStoreNoSpace c)) \<longrightarrow>
                task_kerror g' = kern_kerror g \<and> task_cpu_fallback g' = task_cpu_fallback g)
         \<and> (status \<noteq> CUDA_SUCCESS \<longrightarrow>
                task_kerror g' = (task_kerror g)
                   \<lparr>errcode := status, kernel := StromKernel_CudaRuntime c, lineno := 0\<rparr> \<and>
                task_cpu_fallback g' = task_cpu_fallback g)
         \<and> (errcode (task_kerror g') \<noteq> StromError_Success c \<longrightarrow>
                completed_tasks s' = tid # completed_tasks s)
         \<and> (errcode (task_kerror g') = StromError_Success c \<longrightarrow>
                completed_tasks s' = completed_tasks s @ [tid])
         \<and> num_completed_tasks s' = num_completed_tasks s + 1))"
  by (auto simp: pgstrom_respond_gpuscan_def Let_def dlist_push_head_def dlist_push_tail_def)

theorem pgstrom_respond_gpuscan_disposition_witness:
  "(1001 :: int) \<noteq> CUDA_ERROR_INVALID_CONTEXT \<and> CUDA_SUCCESS \<noteq> CUDA_ERROR_INVALID_CONTEXT
   \<and> (case pgstrom_respond_gpuscan sample_config True True CUDA_SUCCESS 7 (sample_gpuscan 1001) sample_gts
         of (g', s') \<Rightarrow> errcode (task_kerror g') = 0 \<and> task_cpu_fallback g' \<and> completed_tasks s' = [3, 7])
   \<and> (case pgstrom_respond_gpuscan sample_config True True 700 7 (sample_gpuscan 0) sample_gts
         of (g', s') \<Rightarrow> errcode (task_kerror g') = 700 \<and> \<not> task_cpu_fallback g' \<and> completed_tasks s' = [7, 3])
   \<and> pgstrom_respond_gpuscan sample_config True False CUDA_SUCCESS 7 (sample_gpuscan 0) sample_gts
        = (sample_gpuscan 0, sample_gts)"
  using pgstrom_respond_gpuscan_disposition
          [of CUDA_SUCCESS True sample_config True 7 "sample_gpuscan 1001" sample_gts]
        pgstrom_respond_gpuscan_disposition
          [of 700 True sample_config True 7 "sample_gpuscan 0" sample_gts]
        pgstrom_respond_gpuscan_disposition
          [of CUDA_SUCCESS False sample_config True 7 "sample_gpuscan 0" sample_gts]
  by (simp add: sample_config_def sample_gpuscan_def sample_gts_def CUDA_SUCCESS_def
        CUDA_ERROR_INVALID_CONTEXT_def split: prod.splits)

text \<open>Claim C9 as stated fails when CPU fallback is disabled: the run succeeded and the
  kernel asked for a recheck, yet the error stays on the task, the task is not marked for
  fallback, and it is pushed on the front of the completed queue.\<close>

theorem pgstrom_respond_gpuscan_counterexample:
  "errcode (kern_kerror (sample_gpuscan 1001)) = StromError_CpuReCheck sample_config
   \<and> errcode (task_kerror (fst (pgstrom_respond_gpuscan sample_config False True CUDA_SUCCESS 7
         (sample_gpuscan 1001) sample_gts))) = StromError_CpuReCheck sample_config
   \<and> errcode (task_kerror (fst (pgstrom_respond_gpuscan sample_config False True CUDA_SUCCESS 7
         (sample_gpuscan 1001) sample_gts))) \<noteq> StromError_Success sample_config
   \<and> \<not> task_cpu_fallback (fst (pgstrom_respond_gpuscan sample_config False True CUDA_SUCCESS 7
         (sample_gpuscan 1001) sample_gts))
   \<and> completed_tasks (snd (pgstrom_respond_gpuscan sample_config False True CUDA_SUCCESS 7
         (sample_gpuscan 1001) sample_gts)) = [7, 3]"
  by (simp add: pgstrom_respond_gpuscan_def Let_def dlist_push_head_def dlist_push_tail_def
        dlist_delete_def sample_config_def sample_gpuscan_def sample_gts_def CUDA_SUCCESS_def
        CUDA_ERROR_INVALID_CONTEXT_def)

section \<open>A rejected insert leaves the chunk as it was\<close>

text \<open>
  Claim C10. Whenever \<^verbatim>\<open>PDS_insert_tuple\<close> or \<^verbatim>\<open>PDS_insert_hashitem\<close> returns false,
  the chunk it returns from is the chunk it was called on: record count, used bytes,
  index array and every stored record are as before.
\<close>

theorem insert_false_unchanged:
  "(PDS_insert_tuple c k natts tuple = Inr (False, k') \<longrightarrow> k' = k)
   \<and> (PDS_insert_hashitem c k natts tuple hash_value = Inr (False, k') \<longrightarrow> k' = k)"
  by (auto simp: PDS_insert_tuple_def PDS_insert_hashitem_def Let_def split: if_splits)

theorem insert_false_unchanged_witness:
  "PDS_insert_tuple sample_config (sample_chunk KDS_FORMAT_ROW 128 INT_MAX) 2 (sample_tuple 4 1)
     = Inr (False, sample_chunk KDS_FORMAT_ROW 128 INT_MAX)
   \<and> PDS_insert_hashitem sample_config (sample_chunk KDS_FORMAT_HASH 128 INT_MAX) 2 (sample_tuple 4 1) 5
     = Inr (False, sample_chunk KDS_FORMAT_HASH 128 INT_MAX)"
proof -
  have a: "\<exists>k'. PDS_insert_tuple sample_config (sample_chunk KDS_FORMAT_ROW 128 INT_MAX) 2 (sample_tuple 4 1)
     = Inr (False, k')"
    by (simp add: PDS_insert_tuple_def Let_def sample_layout_defs)
  have b: "\<exists>k'. PDS_insert_hashitem sample_config (sample_chunk KDS_FORMAT_HASH 128 INT_MAX) 2 (sample_tuple 4 1) 5
     = Inr (False, k')"
    by (simp add: PDS_insert_hashitem_def Let_def sample_layout_defs)
  from a b insert_false_unchanged show ?thesis by metis
qed


section \<open>Fetching a record\<close>

text \<open>
  Claim C7, as amended. For every chunk and every index at or beyond the record count,
  the fetch returns false and leaves the slot and the tuple buffer untouched. For an
  index below the record count it returns true with a view over the record the index
  entry points to when the chunk has the Row format, and with the value and null-flag
  arrays of the record when it has the Slot format; for a chunk of the Hash or the
  Block format it raises an error.
\<close>

theorem kern_fetch_data_store_cases:
  "(row_index \<ge> nitems k \<longrightarrow>
      kern_fetch_data_store c slot k row_index tuple = Inr (False, slot, tuple))
   \<and> (row_index < nitems k \<and> format k = KDS_FORMAT_ROW \<longrightarrow>
        (\<exists>v. kern_fetch_data_store c slot k row_index tuple
                = Inr (True, slot\<lparr>tts_content := TTS_TUPLE v\<rparr>, v)
           \<and> t_len v = load_uint (mem k) (KERN_DATA_STORE_TUPITEM c k row_index) (tupitem_t_len_sz c)
           \<and> t_self v = load_bytes (mem k) (KERN_DATA_STORE_TUPITEM c k row_index + tupitem_t_self_off c) 6
           \<and> t_data v = load_bytes (mem k) (KERN_DATA_STORE_TUPITEM c k row_index + tupitem_htup_off c)
                           (t_len v)))
   \<and> (row_index < nitems k \<and> format k = KDS_FORMAT_SLOT \<longrightarrow>
        kern_fetch_data_store c slot k row_index tuple
          = Inr (True,
                 slot\<lparr>tts_content := TTS_VIRTUAL
                    (load_bytes (mem k) (KERN_DATA_STORE_VALUES c k row_index) (sizeof_Datum * tts_natts slot))
                    (load_bytes (mem k) (KERN_DATA_STORE_ISNULL c k row_index) (tts_natts slot))\<rparr>,
                 tuple))
   \<and> (row_index < nitems k \<and> (format k = KDS_FORMAT_HASH \<or> format k = KDS_FORMAT_BLOCK) \<longrightarrow>
        kern_fetch_data_store c slot k row_index tuple
          = Inl (ERROR ''Bug? unexpected data-store format: %d''))
   \<and> pgstrom_fetch_data_store c slot pds row_index tuple
        = kern_fetch_data_store c slot (kds pds) row_index tuple"
  by (auto simp: kern_fetch_data_store_def pgstrom_fetch_data_store_def Let_def)

theorem kern_fetch_data_store_cases_witness:
  "(5::nat) \<ge> nitems sample_hash_chunk
   \<and> kern_fetch_data_store sample_config sample_slot sample_hash_chunk 5 (sample_tuple 0 0)
        = Inr (False, sample_slot, sample_tuple 0 0)
   \<and> (0::nat) < nitems sample_hash_chunk \<and> format sample_hash_chunk = KDS_FORMAT_HASH
   \<and> kern_fetch_data_store sample_config sample_slot sample_hash_chunk 0 (sample_tuple 0 0)
        = Inl (ERROR ''Bug? unexpected data-store format: %d'')"
  using kern_fetch_data_store_cases[where row_index = 5 and k = sample_hash_chunk and c = sample_config
          and slot = sample_slot and tuple = "sample_tuple 0 0"]
        kern_fetch_data_store_cases[where row_index = 0 and k = sample_hash_chunk and c = sample_config
          and slot = sample_slot and tuple = "sample_tuple 0 0"]
        sample_hash_chunk_fields
  by simp

text \<open>Claim C7 as stated fails on a Hash-format chunk: the index is below the record
  count and the fetch raises an error.\<close>

theorem kern_fetch_data_store_counterexample:
  "(0::nat) < nitems sample_hash_chunk
   \<and> kern_fetch_data_store sample_config sample_slot sample_hash_chunk 0 (sample_tuple 0 0)
        = Inl (ERROR ''Bug? unexpected data-store format: %d'')"
  by (simp add: kern_fetch_data_store_def sample_hash_chunk_fields)

section \<open>Round trip of insert and fetch\<close>




section \<open>The capacity check of record append\<close>




section \<open>Growing a Slot-format chunk\<close>




section \<open>Growing a Row- or Hash-format chunk\<close>




section \<open>Absorbing a page: all of it or none\<close>

text \<open>
  Claim C8. Take a Row-format chunk as \<^verbatim>\<open>PDS_create_row\<close> makes it (no bucket table,
  \<^verbatim>\<open>nrooms\<close> at \<^verbatim>\<open>INT_MAX\<close>) that holds the records \<open>ts\<close>, and a heap page. When the
  worst-case length \<^verbatim>\<open>PDS_insert_block\<close> computes for the page exceeds the length of
  the chunk, it returns -1 and the chunk is as before, record count and used bytes
  included. Otherwise it returns the number of visible records of the page; the record
  count has grown by that number and the used bytes by the aligned sizes of these records;
  and the chunk holds the records it held, followed by the visible records of the page in
  the order of their line pointers, each with its item pointer, as every fetch shows.
\<close>

theorem PDS_insert_block_all_or_nothing:
  assumes c: "config_ok c" and a8: "8 dvd tupitem_htup_off c"
    and fmt: "format k = KDS_FORMAT_ROW" and ns: "nslots k = 0" and nr: "nrooms k = INT_MAX"
    and inv: "holds_records c k ts" and pg: "page_ok c page"
  shows "(kds_length k < KDS_CALCULATE_HASH_LENGTH c (ncols k) (nitems k + length (page_items page))
                           (tupitem_htup_off c * length (page_items page) + BLCKSZ c + usage k) \<longrightarrow>
            PDS_insert_block c k page blknum tdr = Inr (- 1, k))
    \<and> (KDS_CALCULATE_HASH_LENGTH c (ncols k) (nitems k + length (page_items page))
          (tupitem_htup_off c * length (page_items page) + BLCKSZ c + usage k) \<le> kds_length k \<longrightarrow>
         (\<exists>k'. PDS_insert_block c k page blknum tdr
                  = Inr (int (length (visible_tuples blknum (pd_all_visible page \<and> \<not> tdr)
                                        FirstOffsetNumber (page_items page))), k')
            \<and> nitems k' = nitems k + length (visible_tuples blknum (pd_all_visible page \<and> \<not> tdr)
                                                FirstOffsetNumber (page_items page))
            \<and> usage k' = usage k
                 + sum_list (map (\<lambda>t. LONGALIGN (tupitem_htup_off c + t_len t))
                     (visible_tuples blknum (pd_all_visible page \<and> \<not> tdr) FirstOffsetNumber
                        (page_items page)))
            \<and> kds_length k' = kds_length k
            \<and> (\<forall>i slot tuple. i < nitems k' \<longrightarrow>
                  kern_fetch_data_store c slot k' i tuple
                    = Inr (True,
                           slot\<lparr>tts_content := TTS_TUPLE
                             ((ts @ map tuple_view
                                 (visible_tuples blknum (pd_all_visible page \<and> \<not> tdr) FirstOffsetNumber
                                    (page_items page))) ! i)\<rparr>,
                           (ts @ map tuple_view
                              (visible_tuples blknum (pd_all_visible page \<and> \<not> tdr) FirstOffsetNumber
                                 (page_items page))) ! i))))"
proof (intro conjI impI)
  assume "kds_length k < KDS_CALCULATE_HASH_LENGTH c (ncols k) (nitems k + length (page_items page))
                           (tupitem_htup_off c * length (page_items page) + BLCKSZ c + usage k)"
  with fmt ns show "PDS_insert_block c k page blknum tdr = Inr (- 1, k)"
    by (rule PDS_insert_block_full)
next
  let ?vis = "visible_tuples blknum (pd_all_visible page \<and> \<not> tdr) FirstOffsetNumber (page_items page)"
  assume fit: "KDS_CALCULATE_HASH_LENGTH c (ncols k) (nitems k + length (page_items page))
          (tupitem_htup_off c * length (page_items page) + BLCKSZ c + usage k) \<le> kds_length k"
  from PDS_insert_block_absorbs[OF c a8 fmt ns nr inv pg fit refl, of blknum tdr]
  obtain k' where r: "PDS_insert_block c k page blknum tdr = Inr (int (length ?vis), k')"
    "nitems k' = nitems k + length ?vis"
    "usage k' = usage k + sum_list (map (\<lambda>t. LONGALIGN (tupitem_htup_off c + t_len t)) ?vis)"
    "kds_length k' = kds_length k"
    and f': "format k' = KDS_FORMAT_ROW"
    and inv': "holds_records c k' (ts @ map tuple_view ?vis)"
    by blast
  from inv' have n': "nitems k' = length (ts @ map tuple_view ?vis)" by (simp add: holds_records_def)
  have fe: "\<forall>i slot tuple. i < nitems k' \<longrightarrow>
                  kern_fetch_data_store c slot k' i tuple
                    = Inr (True, slot\<lparr>tts_content := TTS_TUPLE ((ts @ map tuple_view ?vis) ! i)\<rparr>,
                           (ts @ map tuple_view ?vis) ! i)"
    using fetch_holds_records[OF inv' f'] n' by simp
  show "\<exists>k'. PDS_insert_block c k page blknum tdr = Inr (int (length ?vis), k')
            \<and> nitems k' = nitems k + length ?vis
            \<and> usage k' = usage k + sum_list (map (\<lambda>t. LONGALIGN (tupitem_htup_off c + t_len t)) ?vis)
            \<and> kds_length k' = kds_length k
            \<and> (\<forall>i slot tuple. i < nitems k' \<longrightarrow>
                  kern_fetch_data_store c slot k' i tuple
                    = Inr (True, slot\<lparr>tts_content := TTS_TUPLE ((ts @ map tuple_view ?vis) ! i)\<rparr>,
                           (ts @ map tuple_view ?vis) ! i))"
    by (intro exI[of _ k'] conjI) (rule r fe)+
qed

theorem PDS_insert_block_all_or_nothing_witness:
  "config_ok sample_config \<and> 8 dvd tupitem_htup_off sample_config \<and> page_ok sample_config sample_page
   \<and> holds_records sample_config (sample_chunk KDS_FORMAT_ROW 4096 INT_MAX) []
   \<and> holds_records sample_config (sample_chunk KDS_FORMAT_ROW 16384 INT_MAX) []
   \<and> PDS_insert_block sample_config (sample_chunk KDS_FORMAT_ROW 4096 INT_MAX) sample_page 5 False
        = Inr (- 1, sample_chunk KDS_FORMAT_ROW 4096 INT_MAX)
   \<and> (\<exists>k'. PDS_insert_block sample_config (sample_chunk KDS_FORMAT_ROW 16384 INT_MAX) sample_page 5 False
              = Inr (1, k')
         \<and> nitems k' = 1
         \<and> kern_fetch_data_store sample_config sample_slot k' 0 (sample_tuple 0 0)
              = Inr (True,
                     sample_slot\<lparr>tts_content := TTS_TUPLE
                        \<lparr>t_len = 4, t_self = ItemPointerSet 5 1, t_data = [1, 2, 3, 4]\<rparr>\<rparr>,
                     \<lparr>t_len = 4, t_self = ItemPointerSet 5 1, t_data = [1, 2, 3, 4]\<rparr>))"
proof -
  have a8: "8 dvd tupitem_htup_off sample_config" by (simp add: sample_config_def)
  have f: "format (sample_chunk KDS_FORMAT_ROW len INT_MAX) = KDS_FORMAT_ROW"
    "nslots (sample_chunk KDS_FORMAT_ROW len INT_MAX) = 0"
    "nrooms (sample_chunk KDS_FORMAT_ROW len INT_MAX) = INT_MAX"
    "nitems (sample_chunk KDS_FORMAT_ROW len INT_MAX) = 0"
    "usage (sample_chunk KDS_FORMAT_ROW len INT_MAX) = 0"
    "ncols (sample_chunk KDS_FORMAT_ROW len INT_MAX) = 2"
    "kds_length (sample_chunk KDS_FORMAT_ROW len INT_MAX) = len" for len
    by (simp_all add: sample_chunk_def init_kernel_data_store_def)
  have h1: "holds_records sample_config (sample_chunk KDS_FORMAT_ROW 4096 INT_MAX) []"
    and h2: "holds_records sample_config (sample_chunk KDS_FORMAT_ROW 16384 INT_MAX) []"
    by (simp_all add: sample_chunk_holds)
  have mc: "KDS_CALCULATE_HASH_LENGTH sample_config 2 (length (page_items sample_page))
              (tupitem_htup_off sample_config * length (page_items sample_page)
                 + BLCKSZ sample_config) = 9632"
    by (simp add: sample_page_def sample_layout_defs)
  note T1 = PDS_insert_block_all_or_nothing[OF sample_ok(1) a8 f(1) f(2) f(3) h1 sample_page_ok,
      of 5 False, THEN conjunct1, rule_format]
  note T2 = PDS_insert_block_all_or_nothing[OF sample_ok(1) a8 f(1) f(2) f(3) h2 sample_page_ok,
      of 5 False, THEN conjunct2, rule_format]
  have 1: "PDS_insert_block sample_config (sample_chunk KDS_FORMAT_ROW 4096 INT_MAX) sample_page 5 False
        = Inr (- 1, sample_chunk KDS_FORMAT_ROW 4096 INT_MAX)"
    by (rule T1) (simp add: f mc)
  have "KDS_CALCULATE_HASH_LENGTH sample_config (ncols (sample_chunk KDS_FORMAT_ROW 16384 INT_MAX))
          (nitems (sample_chunk KDS_FORMAT_ROW 16384 INT_MAX) + length (page_items sample_page))
          (tupitem_htup_off sample_config * length (page_items sample_page) + BLCKSZ sample_config
             + usage (sample_chunk KDS_FORMAT_ROW 16384 INT_MAX))
        \<le> kds_length (sample_chunk KDS_FORMAT_ROW 16384 INT_MAX)"
    by (simp add: f mc)
  from T2[OF this] obtain k' where
    r: "PDS_insert_block sample_config (sample_chunk KDS_FORMAT_ROW 16384 INT_MAX) sample_page 5 False
          = Inr (int (length (visible_tuples 5 (pd_all_visible sample_page \<and> \<not> False)
                                FirstOffsetNumber (page_items sample_page))), k')"
      "nitems k' = nitems (sample_chunk KDS_FORMAT_ROW 16384 INT_MAX)
          + length (visible_tuples 5 (pd_all_visible sample_page \<and> \<not> False) FirstOffsetNumber
                      (page_items sample_page))"
    and fe: "\<forall>i slot tuple. i < nitems k' \<longrightarrow>
                  kern_fetch_data_store sample_config slot k' i tuple
                    = Inr (True,
                           slot\<lparr>tts_content := TTS_TUPLE
                             (([] @ map tuple_view
                                 (visible_tuples 5 (pd_all_visible sample_page \<and> \<not> False)
                                    FirstOffsetNumber (page_items sample_page))) ! i)\<rparr>,
                           ([] @ map tuple_view
                              (visible_tuples 5 (pd_all_visible sample_page \<and> \<not> False) FirstOffsetNumber
                                 (page_items sample_page))) ! i)"
    by blast
  from r have r': "PDS_insert_block sample_config (sample_chunk KDS_FORMAT_ROW 16384 INT_MAX) sample_page 5 False
          = Inr (1, k')" "nitems k' = 1"
    by (simp_all add: sample_page_visible f)
  from fe r'(2) have "kern_fetch_data_store sample_config sample_slot k' 0 (sample_tuple 0 0)
              = Inr (True,
                     sample_slot\<lparr>tts_content := TTS_TUPLE
                        \<lparr>t_len = 4, t_self = ItemPointerSet 5 1, t_data = [1, 2, 3, 4]\<rparr>\<rparr>,
                     \<lparr>t_len = 4, t_self = ItemPointerSet 5 1, t_data = [1, 2, 3, 4]\<rparr>)"
    by (simp add: sample_page_visible tuple_view_def)
  with r' have "\<exists>k'. PDS_insert_block sample_config (sample_chunk KDS_FORMAT_ROW 16384 INT_MAX) sample_page 5 False
              = Inr (1, k')
         \<and> nitems k' = 1
         \<and> kern_fetch_data_store sample_config sample_slot k' 0 (sample_tuple 0 0)
              = Inr (True,
                     sample_slot\<lparr>tts_content := TTS_TUPLE
                        \<lparr>t_len = 4, t_self = ItemPointerSet 5 1, t_data = [1, 2, 3, 4]\<rparr>\<rparr>,
                     \<lparr>t_len = 4, t_self = ItemPointerSet 5 1, t_data = [1, 2, 3, 4]\<rparr>)"
    by blast
  with 1 h1 h2 a8 sample_ok(1) sample_page_ok show ?thesis by simp
qed

section \<open>Shrinking a Row- or Hash-format chunk\<close>

text \<open>
  Claim C6: the code overruns the chunk where the claim has it move the records. Take a
  Row- or Hash-format chunk that is laid out well and shorter than 4GB, with a header
  of positive size, and let \<open>shift\<close> be the slack: the length of the chunk minus the
  length the format needs for its record count and used bytes, rounded down to the
  alignment unit. \<^verbatim>\<open>PDS_shrink_size\<close> returns the chunk entirely unchanged exactly when
  the slack is smaller than one storage page or smaller than \<^verbatim>\<open>sizeof(Datum)\<close>, eight
  bytes, per record. In every other case its \<^verbatim>\<open>memmove\<close> starts \<^verbatim>\<open>FRONTLEN\<close> bytes into
  the chunk and still copies \<^verbatim>\<open>kds->length - shift\<close> bytes from \<^verbatim>\<open>shift\<close> bytes further
  on: it reads the \<^verbatim>\<open>FRONTLEN\<close> bytes that follow the end of the chunk, and the function
  ends in \<^verbatim>\<open>BufferOverrun\<close> before any record has moved or any index entry has changed.
\<close>

theorem PDS_shrink_size_overrun:
  assumes c: "config_ok c" and hd: "0 < kds_colmeta_off c (ncols k)"
    and fmt: "format k = KDS_FORMAT_ROW \<or> format k = KDS_FORMAT_HASH"
    and ok: "chunk_ok c k" and L: "kds_length k < 2 ^ 32"
    and sh: "shift = STROMALIGN_DOWN c (kds_length k -
               (if format k = KDS_FORMAT_HASH
                then KDS_CALCULATE_HASH_LENGTH c (ncols k) (nitems k) (usage k)
                else KDS_CALCULATE_ROW_LENGTH c (ncols k) (nitems k) (usage k)))"
  shows "(PDS_shrink_size c k = Inr k \<longleftrightarrow> shift < BLCKSZ c \<or> shift < sizeof_Datum * nitems k)
    \<and> (\<not> (shift < BLCKSZ c \<or> shift < sizeof_Datum * nitems k) \<longrightarrow>
          PDS_shrink_size c k = Inl BufferOverrun
          \<and> \<not> memmove_in_bounds (kds_length k)
                (if format k = KDS_FORMAT_HASH
                 then KDS_CALCULATE_HASH_FRONTLEN c (ncols k) (nitems k)
                 else KDS_CALCULATE_ROW_FRONTLEN c (ncols k) (nitems k))
                ((if format k = KDS_FORMAT_HASH
                  then KDS_CALCULATE_HASH_FRONTLEN c (ncols k) (nitems k)
                  else KDS_CALCULATE_ROW_FRONTLEN c (ncols k) (nitems k)) + shift)
                (kds_length k - shift))"
proof -
  let ?LEN = "if format k = KDS_FORMAT_HASH
                then KDS_CALCULATE_HASH_LENGTH c (ncols k) (nitems k) (usage k)
                else KDS_CALCULATE_ROW_LENGTH c (ncols k) (nitems k) (usage k)"
  let ?FRONT = "if format k = KDS_FORMAT_HASH
                 then KDS_CALCULATE_HASH_FRONTLEN c (ncols k) (nitems k)
                 else KDS_CALCULATE_ROW_FRONTLEN c (ncols k) (nitems k)"
  let ?small = "shift < BLCKSZ c \<or> shift < sizeof_Datum * nitems k"
  from ok have le: "?LEN \<le> kds_length k" by (simp add: chunk_ok_def)
  have noop: "PDS_shrink_size c k = Inr k" if ?small
    by (rule shrink_no_op[OF fmt refl le L sh that])
  have over: "PDS_shrink_size c k = Inl BufferOverrun" if "\<not> ?small"
    by (rule shrink_overrun[OF c hd fmt refl le L sh that])
  from FRONTLEN_pos[OF c hd] have F: "0 < ?FRONT" by simp
  have "?FRONT \<le> ?LEN"
    by (simp add: KDS_CALCULATE_HASH_LENGTH_def KDS_CALCULATE_ROW_LENGTH_def)
  moreover have "shift \<le> kds_length k - ?LEN"
    unfolding sh STROMALIGN_DOWN_def by (rule TYPEALIGN_DOWN_le)
  ultimately have "shift < kds_length k" using F le by linarith
  with F have out: "\<not> memmove_in_bounds (kds_length k) ?FRONT (?FRONT + shift) (kds_length k - shift)"
    by (simp add: memmove_in_bounds_def)
  have iff: "PDS_shrink_size c k = Inr k \<longleftrightarrow> ?small"
  proof
    assume r: "PDS_shrink_size c k = Inr k"
    show ?small
    proof (rule ccontr)
      assume "\<not> ?small"
      from over[OF this] r show False by simp
    qed
  next
    assume ?small
    then show "PDS_shrink_size c k = Inr k" by (rule noop)
  qed
  from iff over out show ?thesis by blast
qed

theorem PDS_shrink_size_overrun_witness:
  "config_ok sample_config \<and> 0 < kds_colmeta_off sample_config (ncols sample_slack_chunk)
   \<and> format sample_slack_chunk = KDS_FORMAT_ROW \<and> chunk_ok sample_config sample_slack_chunk
   \<and> nitems sample_slack_chunk = 2 \<and> kds_length sample_slack_chunk = 16384
   \<and> KDS_CALCULATE_ROW_LENGTH sample_config 2 2 (usage sample_slack_chunk) = 160
   \<and> KDS_CALCULATE_ROW_FRONTLEN sample_config 2 2 = 128
   \<and> BLCKSZ sample_config = 8192
   \<and> PDS_shrink_size sample_config sample_slack_chunk = Inl BufferOverrun
   \<and> \<not> memmove_in_bounds 16384 128 (128 + 16224) (16384 - 16224)
   \<and> format sample_row_chunk = KDS_FORMAT_ROW \<and> chunk_ok sample_config sample_row_chunk
   \<and> PDS_shrink_size sample_config sample_row_chunk = Inr sample_row_chunk"
proof -
  have hd: "0 < kds_colmeta_off sample_config n" for n by (simp add: sample_config_def)
  have fmt0: "format sample_row_chunk = KDS_FORMAT_ROW \<or> format sample_row_chunk = KDS_FORMAT_HASH"
    by (simp add: sample_row_chunk_fields)
  have L0: "kds_length sample_row_chunk < 2 ^ 32" by (simp add: sample_row_chunk_fields)
  have small: "STROMALIGN_DOWN sample_config (kds_length sample_row_chunk -
               (if format sample_row_chunk = KDS_FORMAT_HASH
                then KDS_CALCULATE_HASH_LENGTH sample_config (ncols sample_row_chunk)
                       (nitems sample_row_chunk) (usage sample_row_chunk)
                else KDS_CALCULATE_ROW_LENGTH sample_config (ncols sample_row_chunk)
                       (nitems sample_row_chunk) (usage sample_row_chunk)))
            < BLCKSZ sample_config"
    by (simp add: sample_row_chunk_fields) (simp add: sample_layout_defs)
  from PDS_shrink_size_overrun[OF sample_ok(1) hd fmt0 sample_row_chunk_ok L0 refl, THEN conjunct1]
    small
  have r0: "PDS_shrink_size sample_config sample_row_chunk = Inr sample_row_chunk" by blast
  have fmt1: "format sample_slack_chunk = KDS_FORMAT_ROW \<or> format sample_slack_chunk = KDS_FORMAT_HASH"
    by (simp add: sample_slack_chunk_fields)
  have L1: "kds_length sample_slack_chunk < 2 ^ 32" by (simp add: sample_slack_chunk_fields)
  have len: "KDS_CALCULATE_ROW_LENGTH sample_config 2 2 32 = 160"
    "KDS_CALCULATE_ROW_FRONTLEN sample_config 2 2 = 128"
    by (simp_all add: sample_layout_defs)
  have sh1: "16224 = STROMALIGN_DOWN sample_config (kds_length sample_slack_chunk -
               (if format sample_slack_chunk = KDS_FORMAT_HASH
                then KDS_CALCULATE_HASH_LENGTH sample_config (ncols sample_slack_chunk)
                       (nitems sample_slack_chunk) (usage sample_slack_chunk)
                else KDS_CALCULATE_ROW_LENGTH sample_config (ncols sample_slack_chunk)
                       (nitems sample_slack_chunk) (usage sample_slack_chunk)))"
    by (simp add: sample_slack_chunk_fields len) (simp add: sample_layout_defs)
  have big1: "\<not> ((16224::nat) < BLCKSZ sample_config \<or> 16224 < sizeof_Datum * nitems sample_slack_chunk)"
    by (simp add: sample_slack_chunk_fields sample_config_fields sizeof_Datum_def)
  from PDS_shrink_size_overrun[OF sample_ok(1) hd fmt1 sample_slack_chunk_ok L1 sh1,
      THEN conjunct2, rule_format, OF big1]
  have r1: "PDS_shrink_size sample_config sample_slack_chunk = Inl BufferOverrun"
    "\<not> memmove_in_bounds 16384 128 (128 + 16224) (16384 - 16224)"
    by (simp_all add: sample_slack_chunk_fields len)
  from r0 r1 hd sample_ok(1) sample_row_chunk_ok sample_slack_chunk_ok len show ?thesis
    by (simp add: sample_row_chunk_fields sample_slack_chunk_fields sample_config_fields)
qed

text \<open>The threshold of the no-op is eight bytes per record, not the four of an index
  entry: a Row-format chunk of 1100 records whose slack is one page of 8192 bytes, more
  than the 4400 bytes of its index array, is left as it is.\<close>

theorem PDS_shrink_size_threshold_example:
  "format sample_packed_chunk = KDS_FORMAT_ROW \<and> nitems sample_packed_chunk = 1100
   \<and> chunk_ok sample_config sample_packed_chunk
   \<and> STROMALIGN_DOWN sample_config (kds_length sample_packed_chunk
        - KDS_CALCULATE_ROW_LENGTH sample_config (ncols sample_packed_chunk)
            (nitems sample_packed_chunk) (usage sample_packed_chunk)) = 8192
   \<and> BLCKSZ sample_config = 8192
   \<and> STROMALIGN sample_config (sizeof_cl_uint * nitems sample_packed_chunk) = 4400
   \<and> PDS_shrink_size sample_config sample_packed_chunk = Inr sample_packed_chunk"
proof -
  note f = sample_packed_chunk_fields
  from f have fl: "format sample_packed_chunk = KDS_FORMAT_ROW" "nitems sample_packed_chunk = 1100"
    "usage sample_packed_chunk = 17600" "kds_length sample_packed_chunk = 30304"
    "ncols sample_packed_chunk = 2"
    and h: "holds_records sample_config sample_packed_chunk (replicate 1100 (sample_tuple 4 1))"
    by blast+
  have len: "KDS_CALCULATE_ROW_LENGTH sample_config 2 1100 17600 = 22112"
    by (simp add: sample_layout_defs)
  have ok: "chunk_ok sample_config sample_packed_chunk"
    by (rule holds_records_chunk_ok[OF h]) (simp_all add: fl len)
  have sh: "STROMALIGN_DOWN sample_config 8192 = 8192" by (simp add: sample_layout_defs)
  have ia: "STROMALIGN sample_config (sizeof_cl_uint * 1100) = 4400" by (simp add: sample_layout_defs)
  have "PDS_shrink_size sample_config sample_packed_chunk = Inr sample_packed_chunk"
    by (rule shrink_no_op[where LEN = 22112 and sh = 8192])
       (simp_all add: fl len sh sizeof_Datum_def sample_config_fields)
  with ok show ?thesis by (simp add: fl len sh ia sample_config_fields)
qed

end
